theory Spec2Isabelle
  imports Main "HOL-Library.Product_Lexorder"
begin

section \<open>The N-Queens solver of level3/n\_queens.py\<close>

text \<open>
  The class \<open>NQueensSolver\<close> keeps a board (a list of rows of 0/1 cells), the list of
  recorded solutions and two counters. Its methods mutate these fields; the model passes
  the object explicitly and returns the updated one. Python integers are \<open>int\<close>.
  A subscript out of range and \<open>set.remove\<close> of an absent element raise; both are
  results of the model (\<open>Inl\<close>).
\<close>

subsection \<open>Exceptions and subscripts\<close>

datatype error = IndexError | KeyError

definition ebind :: "error + 'a \<Rightarrow> ('a \<Rightarrow> error + 'b) \<Rightarrow> error + 'b" where
  "ebind m f = (case m of Inl e \<Rightarrow> Inl e | Inr x \<Rightarrow> f x)"

lemma ebind_cong [fundef_cong]:
  "m = m' \<Longrightarrow> (\<And>x. m' = Inr x \<Longrightarrow> f x = f' x) \<Longrightarrow> ebind m f = ebind m' f'"
  by (simp add: ebind_def split: sum.splits)

lemma ebind_simps [simp]:
  "ebind (Inl e) f = Inl e"
  "ebind (Inr x) f = f x"
  by (simp_all add: ebind_def)

lemma ebind_eq_Inr:
  "ebind m f = Inr y \<longleftrightarrow> (\<exists>x. m = Inr x \<and> f x = Inr y)"
  by (cases m) simp_all

text \<open>\<open>xs[i]\<close>: a negative subscript counts from the end, anything else out of range raises.\<close>

definition getitem :: "'a list \<Rightarrow> int \<Rightarrow> error + 'a" where
  "getitem xs i =
     (let len = int (length xs); j = (if i < 0 then len + i else i)
      in if 0 \<le> j \<and> j < len then Inr (xs ! nat j) else Inl IndexError)"

text \<open>\<open>xs[i] = v\<close>.\<close>

definition setitem :: "'a list \<Rightarrow> int \<Rightarrow> 'a \<Rightarrow> error + 'a list" where
  "setitem xs i v =
     (let len = int (length xs); j = (if i < 0 then len + i else i)
      in if 0 \<le> j \<and> j < len then Inr (xs[nat j := v]) else Inl IndexError)"

text \<open>\<open>board[i][j]\<close> and \<open>board[i][j] = v\<close>; the rows are separate list objects.\<close>

definition board_get :: "int list list \<Rightarrow> int \<Rightarrow> int \<Rightarrow> error + int" where
  "board_get b i j = ebind (getitem b i) (\<lambda>r. getitem r j)"

definition board_set :: "int list list \<Rightarrow> int \<Rightarrow> int \<Rightarrow> int \<Rightarrow> error + int list list" where
  "board_set b i j v =
     ebind (getitem b i) (\<lambda>r. ebind (setitem r j v) (\<lambda>r'. setitem b i r'))"

text \<open>\<open>range(n)\<close> and \<open>range(a, n)\<close>; empty when there is nothing to run over.\<close>

definition range_py :: "int \<Rightarrow> int list" where
  "range_py k = [0..k - 1]"

definition range_from :: "int \<Rightarrow> int \<Rightarrow> int list" where
  "range_from a k = [a..k - 1]"

text \<open>\<open>s.remove(x)\<close> on a set raises KeyError when \<open>x\<close> is absent.\<close>

definition set_remove :: "int set \<Rightarrow> int \<Rightarrow> error + int set" where
  "set_remove S x = (if x \<in> S then Inr (S - {x}) else Inl KeyError)"

subsection \<open>The solver object\<close>

text \<open>
  The fields of \<open>NQueensSolver\<close>. \<open>self.n\<close> is \<open>self_n\<close>; \<open>start_time\<close> is a wall-clock
  float that no method modelled here reads, and is left out.
\<close>

record solver =
  self_n :: int
  board :: "int list list"
  solutions :: "(int \<times> int) list list"
  solution_count :: int
  backtrack_count :: int

text \<open>
  \<open>__init__\<close>: the body has no check of \<open>n\<close> and no \<open>raise\<close>; the two comprehensions run
  over \<open>range(n)\<close>, which is empty for \<open>n \<le> 0\<close>. The result type still has room for an
  exception so that a statement about a failing constructor can be written down.
\<close>

definition NQueensSolver :: "int \<Rightarrow> error + solver" where
  "NQueensSolver k =
     Inr \<lparr> self_n = k,
           board = map (\<lambda>_. map (\<lambda>_. 0) (range_py k)) (range_py k),
           solutions = [],
           solution_count = 0,
           backtrack_count = 0 \<rparr>"

text \<open>The object a successful construction yields.\<close>

definition fresh :: "int \<Rightarrow> solver" where
  "fresh k = \<lparr> self_n = k,
              board = map (\<lambda>_. map (\<lambda>_. 0) (range_py k)) (range_py k),
              solutions = [],
              solution_count = 0,
              backtrack_count = 0 \<rparr>"

subsection \<open>is\_safe: scanning the board\<close>

text \<open>The loop \<open>for i in range(row): if self.board[i][col] == 1: return False\<close>.
  \<open>Inr False\<close> is the early return, \<open>Inr True\<close> is falling out of the loop.\<close>

fun column_clear :: "int list list \<Rightarrow> int \<Rightarrow> int list \<Rightarrow> error + bool" where
  "column_clear b col [] = Inr True"
| "column_clear b col (i # rest) =
     ebind (board_get b i col) (\<lambda>v.
       if v = 1 then Inr False else column_clear b col rest)"

text \<open>The loop \<open>while i >= 0 and j >= 0\<close> walking up and to the left.\<close>

function upper_left_clear :: "int list list \<Rightarrow> int \<Rightarrow> int \<Rightarrow> error + bool" where
  "upper_left_clear b i j =
     (if i \<ge> 0 \<and> j \<ge> 0 then
        ebind (board_get b i j) (\<lambda>v.
          if v = 1 then Inr False else upper_left_clear b (i - 1) (j - 1))
      else Inr True)"
  by pat_completeness auto
termination
  by (relation "measure (\<lambda>(b, i, j). nat (i + 1))") auto

declare upper_left_clear.simps [simp del]

text \<open>The loop \<open>while i >= 0 and j < self.n\<close> walking up and to the right.\<close>

function upper_right_clear :: "int \<Rightarrow> int list list \<Rightarrow> int \<Rightarrow> int \<Rightarrow> error + bool" where
  "upper_right_clear k b i j =
     (if i \<ge> 0 \<and> j < k then
        ebind (board_get b i j) (\<lambda>v.
          if v = 1 then Inr False else upper_right_clear k b (i - 1) (j + 1))
      else Inr True)"
  by pat_completeness auto
termination
  by (relation "measure (\<lambda>(k, b, i, j). nat (i + 1))") auto

declare upper_right_clear.simps [simp del]

definition is_safe :: "solver \<Rightarrow> int \<Rightarrow> int \<Rightarrow> error + bool" where
  "is_safe s row col =
     ebind (column_clear (board s) col (range_py row)) (\<lambda>ok1.
       if \<not> ok1 then Inr False
       else ebind (upper_left_clear (board s) (row - 1) (col - 1)) (\<lambda>ok2.
         if \<not> ok2 then Inr False
         else upper_right_clear (self_n s) (board s) (row - 1) (col + 1)))"

definition is_safe_optimized ::
  "int \<Rightarrow> int \<Rightarrow> int set \<Rightarrow> int set \<Rightarrow> int set \<Rightarrow> bool" where
  "is_safe_optimized row col cols diag1 diag2 =
     (col \<notin> cols \<and> (row - col) \<notin> diag1 \<and> (row + col) \<notin> diag2)"

subsection \<open>solve\_backtrack: the first solution\<close>

text \<open>
  \<open>solve_backtrack s row\<close> is the method; \<open>solve_backtrack_cols s row cs\<close> is its
  \<open>for col in range(self.n)\<close> loop with the columns \<open>cs\<close> still to try. The result is
  the returned boolean and the object as the call leaves it.
\<close>

function solve_backtrack :: "solver \<Rightarrow> int \<Rightarrow> error + bool \<times> solver"
  and solve_backtrack_cols :: "solver \<Rightarrow> int \<Rightarrow> int list \<Rightarrow> error + bool \<times> solver" where
  "solve_backtrack s row =
     (if row \<ge> self_n s then Inr (True, s)
      else solve_backtrack_cols s row (range_py (self_n s)))"
| "solve_backtrack_cols s row [] = Inr (False, s)"
| "solve_backtrack_cols s row (col # rest) =
     ebind (is_safe s row col) (\<lambda>safe.
       if safe then
         ebind (board_set (board s) row col 1) (\<lambda>b1.
           ebind (solve_backtrack (s\<lparr>board := b1\<rparr>) (row + 1)) (\<lambda>(found, s2).
             if found then Inr (True, s2)
             else ebind (board_set (board s2) row col 0) (\<lambda>b3.
               solve_backtrack_cols
                 (s2\<lparr>board := b3, backtrack_count := backtrack_count s2 + 1\<rparr>) row rest)))
       else solve_backtrack_cols s row rest)"
  by pat_completeness auto

text \<open>Termination: \<open>self.n\<close> is never assigned by the search, and the row grows towards it.\<close>

lemma solve_backtrack_keeps_n:
  "solve_backtrack_solve_backtrack_cols_dom (Inl (s, row)) \<Longrightarrow>
     solve_backtrack s row = Inr (r, s') \<Longrightarrow> self_n s' = self_n s"
  "solve_backtrack_solve_backtrack_cols_dom (Inr (s, row, cs)) \<Longrightarrow>
     solve_backtrack_cols s row cs = Inr (r, s') \<Longrightarrow> self_n s' = self_n s"
proof (induction s row and s row cs arbitrary: r s' and r s'
    rule: solve_backtrack_solve_backtrack_cols.pinduct)
  case (1 s row)
  then show ?case
    by (auto simp: solve_backtrack.psimps split: if_splits)
next
  case (2 s row)
  then show ?case
    by (auto simp: solve_backtrack_cols.psimps)
next
  case (3 s row col rest)
  note eq = 3(5)[unfolded solve_backtrack_cols.psimps(2)[OF 3(1)]]
  from eq obtain safe where safe: "is_safe s row col = Inr safe"
    by (auto simp: ebind_eq_Inr)
  show ?case
  proof (cases safe)
    case False
    with eq safe have "solve_backtrack_cols s row rest = Inr (r, s')" by simp
    from 3(4)[OF safe False this] show ?thesis .
  next
    case True
    with eq safe obtain b1 found s2 where
      b1: "board_set (board s) row col 1 = Inr b1" and
      rec: "solve_backtrack (s\<lparr>board := b1\<rparr>) (row + 1) = Inr (found, s2)" and
      after: "(if found then Inr (True, s2)
               else ebind (board_set (board s2) row col 0) (\<lambda>b3.
                 solve_backtrack_cols
                   (s2\<lparr>board := b3, backtrack_count := backtrack_count s2 + 1\<rparr>) row rest))
              = Inr (r, s')"
      by (auto simp: ebind_eq_Inr)
    from 3(2)[OF safe True b1 rec] have n2: "self_n s2 = self_n s" by simp
    show ?thesis
    proof (cases found)
      case True
      with after n2 show ?thesis by simp
    next
      case False
      with after obtain b3 where
        b3: "board_set (board s2) row col 0 = Inr b3" and
        loop: "solve_backtrack_cols
                 (s2\<lparr>board := b3, backtrack_count := backtrack_count s2 + 1\<rparr>) row rest
               = Inr (r, s')"
        by (auto simp: ebind_eq_Inr)
      from 3(3)[OF safe \<open>safe\<close> b1 rec refl False b3 loop] n2 show ?thesis by simp
    qed
  qed
qed

termination solve_backtrack
proof (relation "inv_image (less_than <*lex*> less_than)
    (\<lambda>x. case x of Inl (s, row) \<Rightarrow> (nat (self_n s - row), 0)
          | Inr (s, row, cs) \<Rightarrow> (nat (self_n s - row - 1), Suc (length cs)))", goal_cases)
  case 1
  show ?case by (intro wf_inv_image wf_lex_prod wf_less_than)
next
  case (2 s row)
  then show ?case by simp
next
  case (3 s row col rest safe b1)
  then show ?case by simp
next
  case (4 s row col rest safe b1 res found s2 b3)
  then have "self_n s2 = self_n s"
    using solve_backtrack_keeps_n(1)[of "s\<lparr>board := b1\<rparr>" "row + 1" found s2] by simp
  then show ?case by simp
next
  case (5 s row col rest safe)
  then show ?case by simp
qed

declare solve_backtrack.simps [simp del] solve_backtrack_cols.simps [simp del]

subsection \<open>solve\_all\_backtrack: every solution\<close>

text \<open>The two nested loops that read the finished board into a list of pairs.\<close>

fun collect_row :: "int list list \<Rightarrow> int \<Rightarrow> int list \<Rightarrow> (int \<times> int) list
    \<Rightarrow> error + (int \<times> int) list" where
  "collect_row b r [] solution = Inr solution"
| "collect_row b r (c # rest) solution =
     ebind (board_get b r c) (\<lambda>v.
       collect_row b r rest (if v = 1 then solution @ [(r, c)] else solution))"

fun collect_rows :: "int \<Rightarrow> int list list \<Rightarrow> int list \<Rightarrow> (int \<times> int) list
    \<Rightarrow> error + (int \<times> int) list" where
  "collect_rows k b [] solution = Inr solution"
| "collect_rows k b (r # rest) solution =
     ebind (collect_row b r (range_py k) solution) (\<lambda>solution'.
       collect_rows k b rest solution')"

definition collect_solution :: "solver \<Rightarrow> error + (int \<times> int) list" where
  "collect_solution s = collect_rows (self_n s) (board s) (range_py (self_n s)) []"

text \<open>
  The three sets are objects shared by all recursive calls, so they travel with the solver.
  \<open>solve_all_from\<close> is the method once the \<open>None\<close> defaults are resolved,
  \<open>solve_all_cols\<close> its \<open>for col in range(self.n)\<close> loop.
\<close>

type_synonym search = "solver \<times> int set \<times> int set \<times> int set"

function solve_all_from :: "search \<Rightarrow> int \<Rightarrow> error + search"
  and solve_all_cols :: "search \<Rightarrow> int \<Rightarrow> int list \<Rightarrow> error + search" where
  "solve_all_from (s, cols, diag1, diag2) row =
     (if row = self_n s then
        ebind (collect_solution s) (\<lambda>solution.
          Inr (s\<lparr>solutions := solutions s @ [solution],
                 solution_count := solution_count s + 1\<rparr>, cols, diag1, diag2))
      else solve_all_cols (s, cols, diag1, diag2) row (range_py (self_n s)))"
| "solve_all_cols (s, cols, diag1, diag2) row [] = Inr (s, cols, diag1, diag2)"
| "solve_all_cols (s, cols, diag1, diag2) row (col # rest) =
     (if is_safe_optimized row col cols diag1 diag2 then
        ebind (board_set (board s) row col 1) (\<lambda>b1.
          ebind (solve_all_from (s\<lparr>board := b1\<rparr>, insert col cols,
                   insert (row - col) diag1, insert (row + col) diag2) (row + 1))
            (\<lambda>(s2, cols2, diag12, diag22).
              ebind (board_set (board s2) row col 0) (\<lambda>b3.
                ebind (set_remove cols2 col) (\<lambda>cols3.
                  ebind (set_remove diag12 (row - col)) (\<lambda>diag13.
                    ebind (set_remove diag22 (row + col)) (\<lambda>diag23.
                      solve_all_cols
                        (s2\<lparr>board := b3, backtrack_count := backtrack_count s2 + 1\<rparr>,
                         cols3, diag13, diag23) row rest))))))
      else solve_all_cols (s, cols, diag1, diag2) row rest)"
  by pat_completeness auto

text \<open>Termination: a placement that does not raise is inside the board, whose number of
  rows no call changes, so the row grows towards the end of the board.\<close>

lemma setitem_length:
  "setitem xs i v = Inr ys \<Longrightarrow> length ys = length xs \<and> i < int (length xs)"
  by (auto simp: setitem_def Let_def split: if_splits)

lemma board_set_length:
  "board_set b i j v = Inr b' \<Longrightarrow> length b' = length b \<and> i < int (length b)"
  by (auto simp: board_set_def ebind_eq_Inr dest: setitem_length)

lemma solve_all_keeps_rows:
  "solve_all_from_solve_all_cols_dom (Inl (st, row)) \<Longrightarrow>
     solve_all_from st row = Inr st' \<Longrightarrow>
     length (board (fst st')) = length (board (fst st))"
  "solve_all_from_solve_all_cols_dom (Inr (st, row, cs)) \<Longrightarrow>
     solve_all_cols st row cs = Inr st' \<Longrightarrow>
     length (board (fst st')) = length (board (fst st))"
proof (induction st row and st row cs arbitrary: st' and st'
    rule: solve_all_from_solve_all_cols.pinduct)
  case (1 s cols diag1 diag2 row)
  then show ?case
    by (auto simp: solve_all_from.psimps ebind_eq_Inr split: if_splits)
next
  case (2 s cols diag1 diag2 row)
  then show ?case
    by (auto simp: solve_all_cols.psimps)
next
  case (3 s cols diag1 diag2 row col rest)
  note eq = 3(5)[unfolded solve_all_cols.psimps(2)[OF 3(1)]]
  show ?case
  proof (cases "is_safe_optimized row col cols diag1 diag2")
    case False
    with eq have "solve_all_cols (s, cols, diag1, diag2) row rest = Inr st'" by simp
    from 3(4)[OF False this] show ?thesis .
  next
    case True
    with eq obtain b1 s2 cols2 diag12 diag22 b3 cols3 diag13 diag23 where
      b1: "board_set (board s) row col 1 = Inr b1" and
      rec: "solve_all_from (s\<lparr>board := b1\<rparr>, insert col cols,
              insert (row - col) diag1, insert (row + col) diag2) (row + 1)
            = Inr (s2, cols2, diag12, diag22)" and
      b3: "board_set (board s2) row col 0 = Inr b3" and
      c3: "set_remove cols2 col = Inr cols3" and
      d13: "set_remove diag12 (row - col) = Inr diag13" and
      d23: "set_remove diag22 (row + col) = Inr diag23" and
      loop: "solve_all_cols
               (s2\<lparr>board := b3, backtrack_count := backtrack_count s2 + 1\<rparr>,
                cols3, diag13, diag23) row rest = Inr st'"
      by (auto simp: ebind_eq_Inr)
    from 3(2)[OF True b1 rec] board_set_length[OF b1]
    have "length (board s2) = length (board s)" by simp
    moreover from 3(3)[OF True b1 rec refl refl refl b3 c3 d13 d23 loop]
      board_set_length[OF b3]
    have "length (board (fst st')) = length (board s2)" by simp
    ultimately show ?thesis by simp
  qed
qed

termination solve_all_from
proof (relation "inv_image (less_than <*lex*> less_than <*lex*> less_than)
    (\<lambda>x. case x of
        Inl (st, row) \<Rightarrow> (nat (int (length (board (fst st))) - row), 1, 0)
      | Inr (st, row, cs) \<Rightarrow> (nat (int (length (board (fst st))) - row), 0, length cs))",
    goal_cases)
  case 1
  show ?case by (intro wf_inv_image wf_lex_prod wf_less_than)
next
  case (2 s cols diag1 diag2 row)
  then show ?case by simp
next
  case (3 s cols diag1 diag2 row col rest b1)
  from board_set_length[OF 3(2)] show ?case by auto
next
  case (4 s cols diag1 diag2 row col rest b1 res s2 r2 cols2 r3 diag12 diag22 b3
      cols3 diag13 diag23)
  then have "length (board s2) = length b1"
    using solve_all_keeps_rows(1)[of "(s\<lparr>board := b1\<rparr>, insert col cols,
      insert (row - col) diag1, insert (row + col) diag2)" "row + 1" res] by auto
  with board_set_length[OF 4(2)] board_set_length[OF 4(7)] show ?case by simp
next
  case (5 s cols diag1 diag2 row col rest)
  then show ?case by simp
qed

declare solve_all_from.simps [simp del] solve_all_cols.simps [simp del]

text \<open>The method as callers invoke it: a set that is \<open>None\<close> is replaced by a new empty set.\<close>

definition solve_all_backtrack ::
  "solver \<Rightarrow> int \<Rightarrow> int set option \<Rightarrow> int set option \<Rightarrow> int set option \<Rightarrow> error + search" where
  "solve_all_backtrack s row cols diag1 diag2 =
     solve_all_from
       (s, (case cols of None \<Rightarrow> {} | Some c \<Rightarrow> c),
           (case diag1 of None \<Rightarrow> {} | Some d \<Rightarrow> d),
           (case diag2 of None \<Rightarrow> {} | Some d \<Rightarrow> d)) row"

subsection \<open>solve\_iterative: the explicit stack\<close>

text \<open>
  \<open>stack\<close> and \<open>positions\<close> are Python lists used from their ends. The stack is kept
  with its top at the head (\<open>append\<close> is \<open>#\<close>, \<open>pop\<close> takes the head); \<open>positions\<close>
  is kept in the source's order (\<open>append\<close> adds at the end, \<open>pop\<close> takes the last).
\<close>

text \<open>\<open>while len(positions) > row: old_row, old_col = positions.pop(); ...\<close>; popping
  an empty list raises IndexError.\<close>

function unwind :: "int list list \<Rightarrow> (int \<times> int) list \<Rightarrow> int
    \<Rightarrow> error + int list list \<times> (int \<times> int) list" where
  "unwind b positions row =
     (if int (length positions) > row then
        (if positions = [] then Inl IndexError
         else case last positions of (old_row, old_col) \<Rightarrow>
           ebind (board_set b old_row old_col 0) (\<lambda>b'.
             unwind b' (butlast positions) row))
      else Inr (b, positions))"
  by pat_completeness auto
termination
  by (relation "measure (\<lambda>(b, positions, row). length positions)") auto

declare unwind.simps [simp del]

text \<open>
  The loop \<open>for c in range(col, self.n)\<close>. The result says how the loop was left: the
  value returned from inside it if any, the flag \<open>found\<close>, and the solver, stack and
  positions at that point.
\<close>

fun try_columns :: "solver \<Rightarrow> (int \<times> int) list \<Rightarrow> (int \<times> int) list \<Rightarrow> int \<Rightarrow> int list
    \<Rightarrow> error + bool option \<times> bool \<times> solver \<times> (int \<times> int) list \<times> (int \<times> int) list" where
  "try_columns s stack positions row [] = Inr (None, False, s, stack, positions)"
| "try_columns s stack positions row (c # rest) =
     ebind (is_safe s row c) (\<lambda>safe.
       if safe then
         ebind (board_set (board s) row c 1) (\<lambda>b1.
           if row = self_n s - 1 then
             Inr (Some True, True, s\<lparr>board := b1\<rparr>, stack, positions @ [(row, c)])
           else
             Inr (None, True, s\<lparr>board := b1\<rparr>,
                  (row + 1, 0) # (row, c + 1) # stack, positions @ [(row, c)]))
       else try_columns s stack positions row rest)"

text \<open>The loop \<open>while stack\<close>. \<open>None\<close> is a loop that never ends.\<close>

partial_function (option) iterative_loop ::
  "solver \<Rightarrow> (int \<times> int) list \<Rightarrow> (int \<times> int) list \<Rightarrow> (error + bool \<times> solver) option" where
  "iterative_loop s stack positions =
     (case stack of
        [] \<Rightarrow> Some (Inr (False, s))
      | (row, col) # stack' \<Rightarrow>
          (case unwind (board s) positions row of
             Inl e \<Rightarrow> Some (Inl e)
           | Inr (b1, positions1) \<Rightarrow>
               (case try_columns (s\<lparr>board := b1\<rparr>) stack' positions1 row
                       (range_from col (self_n s)) of
                  Inl e \<Rightarrow> Some (Inl e)
                | Inr (ret, found, s2, stack2, positions2) \<Rightarrow>
                    (case ret of
                       Some r \<Rightarrow> Some (Inr (r, s2))
                     | None \<Rightarrow>
                         iterative_loop
                           (if found then s2
                            else s2\<lparr>backtrack_count := backtrack_count s2 + 1\<rparr>)
                           stack2 positions2))))"

declare iterative_loop.simps [code]

definition solve_iterative :: "solver \<Rightarrow> (error + bool \<times> solver) option" where
  "solve_iterative s =
     (if self_n s = 0 then Some (Inr (True, s))
      else iterative_loop s [(0, 0)] [])"

subsection \<open>Statistics, validation, symmetry analysis\<close>

text \<open>The dictionary of \<open>get_statistics\<close> without its wall-clock entry \<open>time_taken\<close>.\<close>

record statistics =
  board_size :: int
  solutions_found :: int
  backtrack_operations :: int

definition get_statistics :: "solver \<Rightarrow> statistics" where
  "get_statistics s =
     \<lparr> board_size = self_n s,
       solutions_found = solution_count s,
       backtrack_operations = backtrack_count s \<rparr>"

text \<open>The loop of \<open>validate_solution\<close> with its four sets.\<close>

fun validate_loop :: "(int \<times> int) list \<Rightarrow> int set \<Rightarrow> int set \<Rightarrow> int set \<Rightarrow> int set \<Rightarrow> bool" where
  "validate_loop [] rows cols diag1 diag2 = True"
| "validate_loop ((row, col) # rest) rows cols diag1 diag2 =
     (if row \<in> rows \<or> col \<in> cols \<or> (row - col) \<in> diag1 \<or> (row + col) \<in> diag2
      then False
      else validate_loop rest (insert row rows) (insert col cols)
             (insert (row - col) diag1) (insert (row + col) diag2))"

definition validate_solution :: "solver \<Rightarrow> (int \<times> int) list \<Rightarrow> bool" where
  "validate_solution s solution =
     (if int (length solution) \<noteq> self_n s then False
      else validate_loop solution {} {} {} {})"

text \<open>
  \<open>analyze_symmetry\<close>: the set built from \<open>tuple(sorted(solution))\<close>, and the two numbers
  it prints (total, unique); nothing is printed for an empty list. Python compares
  tuples lexicographically, as the order on pairs here does.
\<close>

definition unique_solutions :: "(int \<times> int) list list \<Rightarrow> (int \<times> int) list set" where
  "unique_solutions sols = fold (\<lambda>solution u. insert (sort solution) u) sols {}"

definition analyze_symmetry :: "(int \<times> int) list list \<Rightarrow> int \<Rightarrow> (nat \<times> nat) option" where
  "analyze_symmetry sols k =
     (if sols = [] then None
      else Some (length sols, card (unique_solutions sols)))"

section \<open>Notions used to state and prove the properties\<close>

text \<open>
  None of the following is part of the program: placements and their boards, the
  enumeration of all complete placements, the points a run of the exhaustive search
  passes through, an explicit solution for every size, and the N-Queens problem itself.
\<close>

subsection \<open>Placements\<close>

text \<open>
  During a search the rows \<open>0 .. row - 1\<close> hold one queen each. A placement \<open>qs\<close> lists
  their columns, row by row: \<open>pairs_of qs\<close> are its squares, \<open>diag1_of\<close> and \<open>diag2_of\<close>
  the diagonals they occupy, \<open>safe qs c\<close> says that column \<open>c\<close> of the next row is not
  attacked, and \<open>board_of k qs\<close> is the board of size \<open>k\<close> that holds exactly these queens.
\<close>

definition pairs_of :: "int list \<Rightarrow> (int \<times> int) list" where
  "pairs_of qs = zip (map int [0..<length qs]) qs"

definition diag1_of :: "int list \<Rightarrow> int set" where
  "diag1_of qs = (\<lambda>(r, c). r - c) ` set (pairs_of qs)"

definition diag2_of :: "int list \<Rightarrow> int set" where
  "diag2_of qs = (\<lambda>(r, c). r + c) ` set (pairs_of qs)"

definition safe :: "int list \<Rightarrow> int \<Rightarrow> bool" where
  "safe qs c = is_safe_optimized (int (length qs)) c (set qs) (diag1_of qs) (diag2_of qs)"

definition cell :: "int list \<Rightarrow> int \<Rightarrow> int \<Rightarrow> int" where
  "cell qs i j = (if 0 \<le> i \<and> nat i < length qs \<and> qs ! nat i = j then 1 else 0)"

definition board_of :: "int \<Rightarrow> int list \<Rightarrow> int list list" where
  "board_of k qs = map (\<lambda>i. map (\<lambda>j. cell qs i j) (range_py k)) (range_py k)"

text \<open>A placement that fits the board of size \<open>k\<close>.\<close>

definition in_range :: "int \<Rightarrow> int list \<Rightarrow> bool" where
  "in_range k qs \<longleftrightarrow> int (length qs) \<le> k \<and> set qs \<subseteq> {0..k - 1}"

text \<open>No two queens of the placement share a column or a diagonal.\<close>

definition consistent :: "int list \<Rightarrow> bool" where
  "consistent qs \<longleftrightarrow>
     distinct qs \<and>
     distinct (map (\<lambda>(r, c). r - c) (pairs_of qs)) \<and>
     distinct (map (\<lambda>(r, c). r + c) (pairs_of qs))"

subsection \<open>The enumeration\<close>

text \<open>
  \<open>all_sols k qs\<close> lists, in the order of the search, the complete placements of a board
  of size \<open>k\<close> that extend \<open>qs\<close> by safe columns only; \<open>all_backtracks k qs\<close> counts the
  placements that are undone on the way.
\<close>

function all_sols :: "int \<Rightarrow> int list \<Rightarrow> int list list" where
  "all_sols k qs =
     (if int (length qs) = k then [qs]
      else if int (length qs) > k then []
      else concat (map (\<lambda>c. if safe qs c then all_sols k (qs @ [c]) else []) (range_py k)))"
  by pat_completeness auto
termination
  by (relation "measure (\<lambda>(k, qs). nat (k - int (length qs)))") auto

declare all_sols.simps [simp del]

function all_backtracks :: "int \<Rightarrow> int list \<Rightarrow> int" where
  "all_backtracks k qs =
     (if int (length qs) \<ge> k then 0
      else sum_list (map (\<lambda>c. if safe qs c then all_backtracks k (qs @ [c]) + 1 else 0)
             (range_py k)))"
  by pat_completeness auto
termination
  by (relation "measure (\<lambda>(k, qs). nat (k - int (length qs)))") auto

declare all_backtracks.simps [simp del]

text \<open>The solver after recording the solutions \<open>sols\<close> and undoing \<open>bt\<close> placements.\<close>

definition advance :: "solver \<Rightarrow> (int \<times> int) list list \<Rightarrow> int \<Rightarrow> solver" where
  "advance s sols bt =
     s\<lparr>solutions := solutions s @ sols,
       solution_count := solution_count s + int (length sols),
       backtrack_count := backtrack_count s + bt\<rparr>"

subsection \<open>The run of the exhaustive search\<close>

text \<open>The queens standing on a board, read row by row.\<close>

definition queens_on :: "int list list \<Rightarrow> (int \<times> int) list" where
  "queens_on b =
     concat (map (\<lambda>i. map (\<lambda>j. (int i, int j))
                        (filter (\<lambda>j. b ! i ! j = 1) [0..<length (b ! i)]))
                 [0..<length b])"

text \<open>
  The sets hold exactly the columns, the \<open>row - col\<close> values and the \<open>row + col\<close> values
  of the queens on the board, and no two queens share one of them.
\<close>

definition mirrors :: "search \<Rightarrow> bool" where
  "mirrors st = (case st of (s, cols, diag1, diag2) \<Rightarrow>
     cols = set (map snd (queens_on (board s))) \<and>
     diag1 = set (map (\<lambda>(r, c). r - c) (queens_on (board s))) \<and>
     diag2 = set (map (\<lambda>(r, c). r + c) (queens_on (board s))) \<and>
     distinct (map snd (queens_on (board s))) \<and>
     distinct (map (\<lambda>(r, c). r - c) (queens_on (board s))) \<and>
     distinct (map (\<lambda>(r, c). r + c) (queens_on (board s))))"

text \<open>
  The points a run of \<open>solve_all_backtrack\<close> passes through, one rule per path of the
  method's body: the entry of a call, the head of the \<open>for col\<close> loop (where
  \<open>is_safe_optimized\<close> is asked about the first of the remaining columns), and the
  return of the recursive call before the placement is undone. Placing a queen (the
  four statements after the safety check) and undoing it are each one step.
\<close>

datatype point =
    At_call search int
  | At_loop search int "int list"
  | At_return search int int "int list"

inductive visits :: "search \<Rightarrow> int \<Rightarrow> point \<Rightarrow> bool" for st0 :: search and row0 :: int where
  v_start: "visits st0 row0 (At_call st0 row0)"
| v_enter: "visits st0 row0 (At_call (s, cols, diag1, diag2) row) \<Longrightarrow> row \<noteq> self_n s \<Longrightarrow>
     visits st0 row0 (At_loop (s, cols, diag1, diag2) row (range_py (self_n s)))"
| v_skip: "visits st0 row0 (At_loop (s, cols, diag1, diag2) row (col # rest)) \<Longrightarrow>
     \<not> is_safe_optimized row col cols diag1 diag2 \<Longrightarrow>
     visits st0 row0 (At_loop (s, cols, diag1, diag2) row rest)"
| v_descend: "visits st0 row0 (At_loop (s, cols, diag1, diag2) row (col # rest)) \<Longrightarrow>
     is_safe_optimized row col cols diag1 diag2 \<Longrightarrow>
     board_set (board s) row col 1 = Inr b1 \<Longrightarrow>
     visits st0 row0 (At_call (s\<lparr>board := b1\<rparr>, insert col cols,
       insert (row - col) diag1, insert (row + col) diag2) (row + 1))"
| v_return: "visits st0 row0 (At_loop (s, cols, diag1, diag2) row (col # rest)) \<Longrightarrow>
     is_safe_optimized row col cols diag1 diag2 \<Longrightarrow>
     board_set (board s) row col 1 = Inr b1 \<Longrightarrow>
     solve_all_from (s\<lparr>board := b1\<rparr>, insert col cols,
       insert (row - col) diag1, insert (row + col) diag2) (row + 1) = Inr st2 \<Longrightarrow>
     visits st0 row0 (At_return st2 row col rest)"
| v_undo: "visits st0 row0 (At_return (s2, cols2, diag12, diag22) row col rest) \<Longrightarrow>
     board_set (board s2) row col 0 = Inr b3 \<Longrightarrow>
     set_remove cols2 col = Inr cols3 \<Longrightarrow>
     set_remove diag12 (row - col) = Inr diag13 \<Longrightarrow>
     set_remove diag22 (row + col) = Inr diag23 \<Longrightarrow>
     visits st0 row0 (At_loop (s2\<lparr>board := b3, backtrack_count := backtrack_count s2 + 1\<rparr>,
       cols3, diag13, diag23) row rest)"

text \<open>
  The invariant of the run: the solver and the sets are those of a placement \<open>qs\<close>
  (\<open>tracks\<close>), whose length is the row of the point (\<open>run_inv\<close>).
\<close>

definition tracks :: "int \<Rightarrow> search \<Rightarrow> int list \<Rightarrow> bool" where
  "tracks k st qs \<longleftrightarrow>
     st = (fst st, set qs, diag1_of qs, diag2_of qs) \<and>
     self_n (fst st) = k \<and> board (fst st) = board_of k qs \<and>
     consistent qs \<and> set qs \<subseteq> {0..k - 1} \<and> (int (length qs) \<le> k \<or> qs = [])"

fun run_inv :: "int \<Rightarrow> point \<Rightarrow> bool" where
  "run_inv k (At_call st row) \<longleftrightarrow> (\<exists>qs. tracks k st qs \<and> row = int (length qs))"
| "run_inv k (At_loop st row cs) \<longleftrightarrow>
     (\<exists>qs. tracks k st qs \<and> row = int (length qs) \<and> set cs \<subseteq> {0..k - 1}
        \<and> (cs = [] \<or> row < k))"
| "run_inv k (At_return st row col rest) \<longleftrightarrow>
     (\<exists>qs. tracks k st (qs @ [col]) \<and> row = int (length qs) \<and> row < k
        \<and> 0 \<le> col \<and> col < k \<and> set rest \<subseteq> {0..k - 1})"

fun state_at :: "point \<Rightarrow> search" where
  "state_at (At_call st row) = st"
| "state_at (At_loop st row cs) = st"
| "state_at (At_return st row col rest) = st"

subsection \<open>First-solution search\<close>

text \<open>The outcome of a first-solution search that has run through the placements \<open>sols\<close>
  in order and left the backtrack counter at \<open>bc\<close>.\<close>

definition first_result :: "solver \<Rightarrow> int list list \<Rightarrow> int \<Rightarrow> bool \<times> solver" where
  "first_result s sols bc =
     (case sols of
        [] \<Rightarrow> (False, s\<lparr>backtrack_count := bc\<rparr>)
      | sol # _ \<Rightarrow> (True, s\<lparr>board := board_of (self_n s) sol, backtrack_count := bc\<rparr>))"

text \<open>
  What popping a frame of row \<open>length qs\<close> leads to, once the placements \<open>sols\<close> that
  frame can still reach are known: the first of them is found, or the loop goes on with
  the frame gone, the rows from \<open>length qs\<close> on cleared.
\<close>

definition iter_outcome ::
  "solver \<Rightarrow> int list \<Rightarrow> (int \<times> int) list \<Rightarrow> int list list \<Rightarrow> int
    \<Rightarrow> (error + bool \<times> solver) option" where
  "iter_outcome s qs stack sols bc =
     (case sols of
        [] \<Rightarrow> iterative_loop (s\<lparr>board := board_of (self_n s) qs, backtrack_count := bc\<rparr>)
                stack (pairs_of qs)
      | sol # _ \<Rightarrow>
          Some (Inr (True, s\<lparr>board := board_of (self_n s) sol, backtrack_count := bc\<rparr>)))"

subsection \<open>An explicit solution, and the problem\<close>

text \<open>
  The classical explicit placement: the odd columns in order, then the even ones, with the
  last few swapped around when the size leaves the remainder 2 or 3 on division by 6.
\<close>

definition queen_col :: "int \<Rightarrow> int \<Rightarrow> int" where
  "queen_col k i =
     (let h = k div 2 in
      if k mod 6 = 2 then
        (if i < h then 2 * i + 1
         else if i = h then 2
         else if i = h + 1 then 0
         else if i = k - 1 then 4
         else 2 * (i - h) + 2)
      else if k mod 6 = 3 then
        (if i < h - 1 then 2 * i + 3
         else if i = h - 1 then 1
         else if i = k - 2 then 0
         else if i = k - 1 then 2
         else 2 * (i - h) + 4)
      else
        (if i < h then 2 * i + 1 else 2 * (i - h)))"

definition explicit_solution :: "int \<Rightarrow> int list" where
  "explicit_solution k = map (\<lambda>i. queen_col k (int i)) [0..<nat k]"

text \<open>
  The problem itself, independent of any search: two squares attack each other when they
  share a row, a column or a diagonal; a solution for size \<open>k\<close> is a set of \<open>k\<close> squares
  of the \<open>k \<times> k\<close> board no two of which attack each other.
\<close>

definition attacks :: "int \<times> int \<Rightarrow> int \<times> int \<Rightarrow> bool" where
  "attacks p q \<longleftrightarrow>
     fst p = fst q \<or> snd p = snd q \<or>
     fst p - snd p = fst q - snd q \<or> fst p + snd p = fst q + snd q"

definition nqueens_solution :: "int \<Rightarrow> (int \<times> int) set \<Rightarrow> bool" where
  "nqueens_solution k Q \<longleftrightarrow>
     finite Q \<and> int (card Q) = k \<and>
     (\<forall>p \<in> Q. 0 \<le> fst p \<and> fst p < k \<and> 0 \<le> snd p \<and> snd p < k) \<and>
     (\<forall>p \<in> Q. \<forall>q \<in> Q. p \<noteq> q \<longrightarrow> \<not> attacks p q)"

section \<open>Basic facts about ranges and construction\<close>

lemma range_py_map: "range_py k = map int [0..<nat k]"
proof (rule nth_equalityI)
  show "length (range_py k) = length (map int [0..<nat k])"
    by (simp add: range_py_def)
next
  fix i assume "i < length (range_py k)"
  then show "range_py k ! i = map int [0..<nat k] ! i"
    by (simp add: range_py_def)
qed

lemma range_py_nonpos [simp]: "k \<le> 0 \<Longrightarrow> range_py k = []"
  by (simp add: range_py_def)

lemma set_range_py [simp]: "set (range_py k) = {0..k - 1}"
  by (simp add: range_py_def)

lemma length_range_py [simp]: "length (range_py k) = nat k"
  by (simp add: range_py_def)

lemma map_const_range_py: "map (\<lambda>_. x) (range_py k) = replicate (nat k) x"
  by (simp add: range_py_map map_replicate_const)

lemma NQueensSolver_fresh: "NQueensSolver k = Inr (fresh k)"
  by (simp add: NQueensSolver_def fresh_def)

lemma board_fresh: "board (fresh k) = replicate (nat k) (replicate (nat k) 0)"
  by (simp add: fresh_def map_const_range_py)

lemma fresh_simps [simp]:
  "self_n (fresh k) = k"
  "solutions (fresh k) = []"
  "solution_count (fresh k) = 0"
  "backtrack_count (fresh k) = 0"
  by (simp_all add: fresh_def)

section \<open>Construction\<close>

text \<open>
  C6 (as the code has it): constructing a solver never fails. For every integer \<open>n\<close>,
  also \<open>n \<le> 0\<close>, \<open>__init__\<close> returns an object with \<open>self.n = n\<close>, a board of
  \<open>max n 0\<close> rows of \<open>max n 0\<close> zeros (the empty board when \<open>n \<le> 0\<close>), no solutions
  and both counters at 0; the constructor validates nothing.
\<close>

theorem NQueensSolver_never_fails:
  "NQueensSolver k =
     Inr \<lparr> self_n = k, board = replicate (nat k) (replicate (nat k) 0),
           solutions = [], solution_count = 0, backtrack_count = 0 \<rparr>
   \<and> (k \<le> 0 \<longrightarrow> NQueensSolver k =
     Inr \<lparr> self_n = k, board = [], solutions = [], solution_count = 0,
           backtrack_count = 0 \<rparr>)"
  by (simp add: NQueensSolver_def map_const_range_py)

theorem NQueensSolver_never_fails_witness:
  "(-3::int) \<le> 0 \<and> NQueensSolver (-3) =
     Inr \<lparr> self_n = -3, board = [], solutions = [], solution_count = 0,
           backtrack_count = 0 \<rparr>"
  using NQueensSolver_never_fails [of "-3"] by simp

text \<open>The claim as stated fails at \<open>n = 0\<close>: the constructor returns an object.\<close>

theorem NQueensSolver_zero_counterexample:
  "NQueensSolver 0 =
     Inr \<lparr> self_n = 0, board = [], solutions = [], solution_count = 0,
           backtrack_count = 0 \<rparr>"
  by (simp add: NQueensSolver_def)

section \<open>Validation\<close>

lemma validate_loop_iff:
  "validate_loop sol rows cols diag1 diag2 \<longleftrightarrow>
     distinct (map fst sol) \<and> set (map fst sol) \<inter> rows = {} \<and>
     distinct (map snd sol) \<and> set (map snd sol) \<inter> cols = {} \<and>
     distinct (map (\<lambda>(r, c). r - c) sol) \<and> set (map (\<lambda>(r, c). r - c) sol) \<inter> diag1 = {} \<and>
     distinct (map (\<lambda>(r, c). r + c) sol) \<and> set (map (\<lambda>(r, c). r + c) sol) \<inter> diag2 = {}"
proof (induction sol arbitrary: rows cols diag1 diag2)
  case Nil
  show ?case by simp
next
  case (Cons p sol)
  obtain r c where p: "p = (r, c)" by (cases p)
  show ?case
    by (auto simp: p Cons.IH)
qed

text \<open>
  C5 (as the code has it): \<open>validate_solution\<close> is total and returns a boolean. It returns
  true exactly when the candidate has \<open>self.n\<close> entries and no two entries share a row, a
  column, a \<open>row - col\<close> value or a \<open>row + col\<close> value; so it returns false for a wrong
  length and for every such duplicate. The coordinates are not compared with the board:
  a candidate of the right length without duplicates is accepted wherever its cells lie.
\<close>

theorem validate_solution_iff:
  "validate_solution s sol \<longleftrightarrow>
     int (length sol) = self_n s \<and>
     distinct (map fst sol) \<and>
     distinct (map snd sol) \<and>
     distinct (map (\<lambda>(r, c). r - c) sol) \<and>
     distinct (map (\<lambda>(r, c). r + c) sol)"
  by (simp add: validate_solution_def validate_loop_iff)

theorem validate_solution_iff_witness:
  "validate_solution (fresh 4) [(0, 1), (1, 3), (2, 0), (3, 2)] \<and>
   \<not> validate_solution (fresh 4) [(0, 0), (1, 0), (2, 2), (3, 3)] \<and>
   \<not> validate_solution (fresh 4) [(0, 0), (1, 1), (2, 3), (3, 2)] \<and>
   \<not> validate_solution (fresh 4) [(0, 1), (1, 3), (2, 0)]"
  by (simp add: validate_solution_iff [of "fresh 4"])

text \<open>The claim as stated fails on a board of size 1 at the candidate \<open>[(5, 7)]\<close>, whose
  cell is outside the board: it is accepted.\<close>

theorem validate_out_of_range_counterexample:
  "validate_solution (fresh 1) [(5, 7)] = True \<and> \<not> (0 \<le> (5::int) \<and> (5::int) \<le> 1 - 1)"
  by (simp add: validate_solution_def)

section \<open>The board of size one\<close>

lemma fresh_1: "fresh 1 = \<lparr> self_n = 1, board = [[0]], solutions = [],
    solution_count = 0, backtrack_count = 0 \<rparr>"
  by (simp add: fresh_def range_py_def upto.simps)

lemma solve_backtrack_1:
  "solve_backtrack (fresh 1) 0 =
     Inr (True, \<lparr> self_n = 1, board = [[1]], solutions = [],
                  solution_count = 0, backtrack_count = 0 \<rparr>)"
  by code_simp

text \<open>
  C8 (as the code has it): after \<open>NQueensSolver(1)\<close> and \<open>solve_backtrack()\<close> the call has
  returned True, the board read row by row gives the single pair \<open>(0, 0)\<close>, and the
  statistics report \<open>solutions_found = 0\<close> (and no backtrack): the first-solution search
  does not count the solution it finds.
\<close>

theorem size_one_first_solution:
  "ebind (ebind (NQueensSolver 1) (\<lambda>s. solve_backtrack s 0)) (\<lambda>(r, s).
     ebind (collect_solution s) (\<lambda>sol. Inr (r, sol, get_statistics s)))
   = Inr (True, [(0, 0)],
          \<lparr> board_size = 1, solutions_found = 0, backtrack_operations = 0 \<rparr>)"
  by (simp add: NQueensSolver_fresh solve_backtrack_1 collect_solution_def range_py_def
      upto.simps board_get_def getitem_def get_statistics_def)

text \<open>The claim as stated fails: the reported number of solutions is 0, not 1.\<close>

theorem size_one_statistics_counterexample:
  "ebind (ebind (NQueensSolver 1) (\<lambda>s. solve_backtrack s 0)) (\<lambda>(r, s).
     Inr (solutions_found (get_statistics s))) = Inr 0"
  by (simp add: NQueensSolver_fresh solve_backtrack_1 get_statistics_def)

section \<open>Placements: the queens of the rows filled so far\<close>

lemma length_pairs_of [simp]: "length (pairs_of qs) = length qs"
  by (simp add: pairs_of_def)

lemma nth_pairs_of [simp]: "i < length qs \<Longrightarrow> pairs_of qs ! i = (int i, qs ! i)"
  by (simp add: pairs_of_def)

lemma map_snd_pairs_of [simp]: "map snd (pairs_of qs) = qs"
  by (simp add: pairs_of_def)

lemma map_fst_pairs_of [simp]: "map fst (pairs_of qs) = map int [0..<length qs]"
  by (simp add: pairs_of_def)

lemma pairs_of_Nil [simp]: "pairs_of [] = []"
  by (simp add: pairs_of_def)

lemma pairs_of_snoc: "pairs_of (qs @ [c]) = pairs_of qs @ [(int (length qs), c)]"
  by (simp add: pairs_of_def)

lemma set_pairs_of: "set (pairs_of qs) = {(int i, qs ! i) | i. i < length qs}"
proof -
  have "set (pairs_of qs) = {pairs_of qs ! i | i. i < length (pairs_of qs)}"
    by (rule set_conv_nth)
  also have "\<dots> = {(int i, qs ! i) | i. i < length qs}"
    by auto (metis nth_pairs_of)
  finally show ?thesis .
qed

lemma diag1_of_eq: "diag1_of qs = {int i - qs ! i | i. i < length qs}"
  unfolding diag1_of_def set_pairs_of by force

lemma diag2_of_eq: "diag2_of qs = {int i + qs ! i | i. i < length qs}"
  unfolding diag2_of_def set_pairs_of by force

lemma safe_iff:
  "safe qs c \<longleftrightarrow> (\<forall>i < length qs. qs ! i \<noteq> c \<and> int i - qs ! i \<noteq> int (length qs) - c
      \<and> int i + qs ! i \<noteq> int (length qs) + c)"
  unfolding safe_def is_safe_optimized_def diag1_of_eq diag2_of_eq
  by (auto simp: in_set_conv_nth)

lemma diag1_of_snoc: "diag1_of (qs @ [c]) = insert (int (length qs) - c) (diag1_of qs)"
  by (simp add: diag1_of_def pairs_of_snoc)

lemma diag2_of_snoc: "diag2_of (qs @ [c]) = insert (int (length qs) + c) (diag2_of qs)"
  by (simp add: diag2_of_def pairs_of_snoc)

lemma diag_of_Nil [simp]: "diag1_of [] = {}" "diag2_of [] = {}"
  by (simp_all add: diag1_of_def diag2_of_def)

subsection \<open>The board of a placement\<close>

lemma getitem_nat: "i < length xs \<Longrightarrow> getitem xs (int i) = Inr (xs ! i)"
  by (simp add: getitem_def)

lemma setitem_nat: "i < length xs \<Longrightarrow> setitem xs (int i) v = Inr (xs[i := v])"
  by (simp add: setitem_def)

lemma board_get_nat:
  "i < length b \<Longrightarrow> j < length (b ! i) \<Longrightarrow> board_get b (int i) (int j) = Inr (b ! i ! j)"
  by (simp add: board_get_def getitem_nat)

lemma board_set_nat:
  "i < length b \<Longrightarrow> j < length (b ! i) \<Longrightarrow>
     board_set b (int i) (int j) v = Inr (b[i := (b ! i)[j := v]])"
  by (simp add: board_set_def getitem_nat setitem_nat)

lemma nth_range_py [simp]: "j < nat k \<Longrightarrow> range_py k ! j = int j"
  by (simp add: range_py_map)

lemma cell_beyond: "int (length qs) \<le> i \<Longrightarrow> cell qs i j = 0"
  by (auto simp: cell_def)

lemma length_board_of [simp]: "length (board_of k qs) = nat k"
  by (simp add: board_of_def)

lemma nth_board_of:
  "i < nat k \<Longrightarrow> board_of k qs ! i = map (\<lambda>j. cell qs (int i) j) (range_py k)"
  by (simp add: board_of_def range_py_map)

lemma nth_nth_board_of:
  "i < nat k \<Longrightarrow> j < nat k \<Longrightarrow> board_of k qs ! i ! j = cell qs (int i) (int j)"
  by (simp add: nth_board_of)

lemma board_get_board_of:
  assumes "0 \<le> i" "i < k" "0 \<le> j" "j < k"
  shows "board_get (board_of k qs) i j = Inr (cell qs i j)"
proof -
  have "board_get (board_of k qs) (int (nat i)) (int (nat j))
      = Inr (board_of k qs ! nat i ! nat j)"
    using assms by (intro board_get_nat) (simp_all add: nth_board_of)
  with assms show ?thesis by (simp add: nth_nth_board_of)
qed

lemma board_fresh_of: "board (fresh k) = board_of k []"
  by (simp add: fresh_def board_of_def cell_def)

lemma cell_snoc:
  "cell (qs @ [c]) i j = (if i = int (length qs) then (if j = c then 1 else 0) else cell qs i j)"
  by (auto simp: cell_def nth_append)

lemma board_set_place:
  assumes "int (length qs) < k" "0 \<le> c" "c < k"
  shows "board_set (board_of k qs) (int (length qs)) c 1 = Inr (board_of k (qs @ [c]))"
proof -
  let ?b = "board_of k qs" and ?r = "length qs"
  have r: "?r < nat k" using assms by simp
  have "board_set ?b (int ?r) (int (nat c)) 1 = Inr (?b[?r := (?b ! ?r)[nat c := 1]])"
    using assms r by (intro board_set_nat) (simp_all add: nth_board_of)
  moreover have "?b[?r := (?b ! ?r)[nat c := 1]] = board_of k (qs @ [c])"
  proof (rule nth_equalityI)
    show "length (?b[?r := (?b ! ?r)[nat c := 1]]) = length (board_of k (qs @ [c]))" by simp
  next
    fix i assume i: "i < length (?b[?r := (?b ! ?r)[nat c := 1]])"
    then have ik: "i < nat k" by simp
    show "?b[?r := (?b ! ?r)[nat c := 1]] ! i = board_of k (qs @ [c]) ! i"
    proof (rule nth_equalityI)
      show "length (?b[?r := (?b ! ?r)[nat c := 1]] ! i) = length (board_of k (qs @ [c]) ! i)"
        using ik r by (simp add: nth_list_update nth_board_of)
    next
      fix j assume "j < length (?b[?r := (?b ! ?r)[nat c := 1]] ! i)"
      then have jk: "j < nat k"
        using ik r by (simp add: nth_list_update nth_board_of split: if_splits)
      show "?b[?r := (?b ! ?r)[nat c := 1]] ! i ! j = board_of k (qs @ [c]) ! i ! j"
        using ik jk r assms
        by (auto simp: nth_list_update nth_nth_board_of cell_snoc nth_board_of cell_beyond)
    qed
  qed
  ultimately show ?thesis using assms by simp
qed

lemma board_set_unplace:
  assumes "int (length qs) < k" "0 \<le> c" "c < k"
  shows "board_set (board_of k (qs @ [c])) (int (length qs)) c 0 = Inr (board_of k qs)"
proof -
  let ?b = "board_of k (qs @ [c])" and ?r = "length qs"
  have r: "?r < nat k" using assms by simp
  have "board_set ?b (int ?r) (int (nat c)) 0 = Inr (?b[?r := (?b ! ?r)[nat c := 0]])"
    using assms r by (intro board_set_nat) (simp_all add: nth_board_of)
  moreover have "?b[?r := (?b ! ?r)[nat c := 0]] = board_of k qs"
  proof (rule nth_equalityI)
    show "length (?b[?r := (?b ! ?r)[nat c := 0]]) = length (board_of k qs)" by simp
  next
    fix i assume i: "i < length (?b[?r := (?b ! ?r)[nat c := 0]])"
    then have ik: "i < nat k" by simp
    show "?b[?r := (?b ! ?r)[nat c := 0]] ! i = board_of k qs ! i"
    proof (rule nth_equalityI)
      show "length (?b[?r := (?b ! ?r)[nat c := 0]] ! i) = length (board_of k qs ! i)"
        using ik r by (simp add: nth_list_update nth_board_of)
    next
      fix j assume "j < length (?b[?r := (?b ! ?r)[nat c := 0]] ! i)"
      then have jk: "j < nat k"
        using ik r by (simp add: nth_list_update nth_board_of split: if_splits)
      show "?b[?r := (?b ! ?r)[nat c := 0]] ! i ! j = board_of k qs ! i ! j"
        using ik jk r assms
        by (auto simp: nth_list_update nth_nth_board_of cell_snoc nth_board_of cell_beyond)
    qed
  qed
  ultimately show ?thesis using assms by simp
qed

subsection \<open>Scanning the board of a placement\<close>

lemma cell_eq_1: "cell qs i j = 1 \<longleftrightarrow> 0 \<le> i \<and> nat i < length qs \<and> qs ! nat i = j"
  by (simp add: cell_def)

lemma column_clear_board_of:
  assumes "0 \<le> col" "col < k" "set rows \<subseteq> {0..k - 1}"
  shows "column_clear (board_of k qs) col rows = Inr (\<forall>i \<in> set rows. cell qs i col \<noteq> 1)"
  using assms(3)
proof (induction rows)
  case Nil
  show ?case by simp
next
  case (Cons i rows)
  then have "board_get (board_of k qs) i col = Inr (cell qs i col)"
    using assms(1,2) by (intro board_get_board_of) auto
  with Cons show ?case by auto
qed

lemma upper_left_clear_board_of:
  assumes "b = board_of k qs" "i < k" "j < k"
  shows "upper_left_clear b i j =
    Inr (\<forall>i' j'. 0 \<le> i' \<and> i' \<le> i \<and> 0 \<le> j' \<and> j' \<le> j \<and> i - i' = j - j' \<longrightarrow> cell qs i' j' \<noteq> 1)"
  using assms
proof (induction b i j rule: upper_left_clear.induct)
  case (1 b i j)
  show ?case
  proof (cases "i \<ge> 0 \<and> j \<ge> 0")
    case False
    then show ?thesis
      by (subst upper_left_clear.simps) auto
  next
    case True
    then have get: "board_get b i j = Inr (cell qs i j)"
      using 1(2-4) by (simp add: board_get_board_of)
    show ?thesis
    proof (cases "cell qs i j = 1")
      case c: True
      have "upper_left_clear b i j = Inr False"
        by (subst upper_left_clear.simps) (simp add: True get c)
      moreover have "\<not> (\<forall>i' j'. 0 \<le> i' \<and> i' \<le> i \<and> 0 \<le> j' \<and> j' \<le> j \<and> i - i' = j - j'
          \<longrightarrow> cell qs i' j' \<noteq> 1)"
        using True c by auto
      ultimately show ?thesis by simp
    next
      case c: False
      have "upper_left_clear b i j = upper_left_clear b (i - 1) (j - 1)"
        by (subst upper_left_clear.simps) (simp add: True get c)
      also have "\<dots> = Inr (\<forall>i' j'. 0 \<le> i' \<and> i' \<le> i - 1 \<and> 0 \<le> j' \<and> j' \<le> j - 1
          \<and> i - 1 - i' = j - 1 - j' \<longrightarrow> cell qs i' j' \<noteq> 1)"
        using 1(1)[OF True get c] 1(2-4) by simp
      also have "(\<forall>i' j'. 0 \<le> i' \<and> i' \<le> i - 1 \<and> 0 \<le> j' \<and> j' \<le> j - 1
          \<and> i - 1 - i' = j - 1 - j' \<longrightarrow> cell qs i' j' \<noteq> 1)
        \<longleftrightarrow> (\<forall>i' j'. 0 \<le> i' \<and> i' \<le> i \<and> 0 \<le> j' \<and> j' \<le> j \<and> i - i' = j - j'
          \<longrightarrow> cell qs i' j' \<noteq> 1)" (is "?L \<longleftrightarrow> ?R")
      proof
        assume L: ?L
        show ?R
        proof (intro allI impI)
          fix i' j' assume a: "0 \<le> i' \<and> i' \<le> i \<and> 0 \<le> j' \<and> j' \<le> j \<and> i - i' = j - j'"
          show "cell qs i' j' \<noteq> 1"
          proof (cases "i' = i")
            case True
            with a have "j' = j" by simp
            with True c show ?thesis by simp
          next
            case False
            with a have "0 \<le> i' \<and> i' \<le> i - 1 \<and> 0 \<le> j' \<and> j' \<le> j - 1
              \<and> i - 1 - i' = j - 1 - j'" by auto
            with L show ?thesis by blast
          qed
        qed
      next
        assume R: ?R
        show ?L
        proof (intro allI impI)
          fix i' j' assume "0 \<le> i' \<and> i' \<le> i - 1 \<and> 0 \<le> j' \<and> j' \<le> j - 1
              \<and> i - 1 - i' = j - 1 - j'"
          then have "0 \<le> i' \<and> i' \<le> i \<and> 0 \<le> j' \<and> j' \<le> j \<and> i - i' = j - j'" by auto
          with R show "cell qs i' j' \<noteq> 1" by blast
        qed
      qed
      finally show ?thesis .
    qed
  qed
qed

lemma upper_right_clear_board_of:
  assumes "b = board_of k qs" "i < k" "0 \<le> j"
  shows "upper_right_clear k b i j =
    Inr (\<forall>i' j'. 0 \<le> i' \<and> i' \<le> i \<and> j \<le> j' \<and> j' < k \<and> i - i' = j' - j \<longrightarrow> cell qs i' j' \<noteq> 1)"
  using assms
proof (induction k b i j rule: upper_right_clear.induct)
  case (1 k b i j)
  show ?case
  proof (cases "i \<ge> 0 \<and> j < k")
    case False
    then show ?thesis
      by (subst upper_right_clear.simps) auto
  next
    case True
    then have get: "board_get b i j = Inr (cell qs i j)"
      using 1(2-4) by (simp add: board_get_board_of)
    show ?thesis
    proof (cases "cell qs i j = 1")
      case c: True
      have "upper_right_clear k b i j = Inr False"
        by (subst upper_right_clear.simps) (simp add: True get c)
      moreover have "\<not> (\<forall>i' j'. 0 \<le> i' \<and> i' \<le> i \<and> j \<le> j' \<and> j' < k \<and> i - i' = j' - j
          \<longrightarrow> cell qs i' j' \<noteq> 1)"
        using True c by auto
      ultimately show ?thesis by simp
    next
      case c: False
      have "upper_right_clear k b i j = upper_right_clear k b (i - 1) (j + 1)"
        by (subst upper_right_clear.simps) (simp add: True get c)
      also have "\<dots> = Inr (\<forall>i' j'. 0 \<le> i' \<and> i' \<le> i - 1 \<and> j + 1 \<le> j' \<and> j' < k
          \<and> i - 1 - i' = j' - (j + 1) \<longrightarrow> cell qs i' j' \<noteq> 1)"
        using 1(1)[OF True get c] 1(2-4) by simp
      also have "(\<forall>i' j'. 0 \<le> i' \<and> i' \<le> i - 1 \<and> j + 1 \<le> j' \<and> j' < k
          \<and> i - 1 - i' = j' - (j + 1) \<longrightarrow> cell qs i' j' \<noteq> 1)
        \<longleftrightarrow> (\<forall>i' j'. 0 \<le> i' \<and> i' \<le> i \<and> j \<le> j' \<and> j' < k \<and> i - i' = j' - j
          \<longrightarrow> cell qs i' j' \<noteq> 1)" (is "?L \<longleftrightarrow> ?R")
      proof
        assume L: ?L
        show ?R
        proof (intro allI impI)
          fix i' j' assume a: "0 \<le> i' \<and> i' \<le> i \<and> j \<le> j' \<and> j' < k \<and> i - i' = j' - j"
          show "cell qs i' j' \<noteq> 1"
          proof (cases "i' = i")
            case True
            with a have "j' = j" by simp
            with True c show ?thesis by simp
          next
            case False
            with a have "0 \<le> i' \<and> i' \<le> i - 1 \<and> j + 1 \<le> j' \<and> j' < k
              \<and> i - 1 - i' = j' - (j + 1)" by auto
            with L show ?thesis by blast
          qed
        qed
      next
        assume R: ?R
        show ?L
        proof (intro allI impI)
          fix i' j' assume "0 \<le> i' \<and> i' \<le> i - 1 \<and> j + 1 \<le> j' \<and> j' < k
              \<and> i - 1 - i' = j' - (j + 1)"
          then have "0 \<le> i' \<and> i' \<le> i \<and> j \<le> j' \<and> j' < k \<and> i - i' = j' - j" by auto
          with R show "cell qs i' j' \<noteq> 1" by blast
        qed
      qed
      finally show ?thesis .
    qed
  qed
qed

lemma in_range_nth: "in_range k qs \<Longrightarrow> i < length qs \<Longrightarrow> 0 \<le> qs ! i \<and> qs ! i < k"
proof -
  assume "in_range k qs" "i < length qs"
  then have "qs ! i \<in> {0..k - 1}"
    unfolding in_range_def using nth_mem[of i qs] by blast
  then show ?thesis by simp
qed

lemma is_safe_board_of:
  assumes s: "self_n s = k" "board s = board_of k qs"
    and r: "in_range k qs" and c: "0 \<le> c" "c < k"
  shows "is_safe s (int (length qs)) c = Inr (safe qs c)"
proof -
  let ?row = "int (length qs)"
  let ?A = "\<forall>i \<in> set (range_py ?row). cell qs i c \<noteq> 1"
  let ?B = "\<forall>i' j'. 0 \<le> i' \<and> i' \<le> ?row - 1 \<and> 0 \<le> j' \<and> j' \<le> c - 1
      \<and> ?row - 1 - i' = c - 1 - j' \<longrightarrow> cell qs i' j' \<noteq> 1"
  let ?C = "\<forall>i' j'. 0 \<le> i' \<and> i' \<le> ?row - 1 \<and> c + 1 \<le> j' \<and> j' < k
      \<and> ?row - 1 - i' = j' - (c + 1) \<longrightarrow> cell qs i' j' \<noteq> 1"
  have rk: "?row \<le> k" using r by (simp add: in_range_def)
  have A: "column_clear (board s) c (range_py ?row) = Inr ?A"
    unfolding s using c rk by (intro column_clear_board_of) auto
  have B: "upper_left_clear (board s) (?row - 1) (c - 1) = Inr ?B"
    using c rk by (intro upper_left_clear_board_of) (auto simp: s)
  have C: "upper_right_clear (self_n s) (board s) (?row - 1) (c + 1) = Inr ?C"
    unfolding s(1) using c rk by (intro upper_right_clear_board_of) (auto simp: s)
  have "is_safe s ?row c = Inr (?A \<and> ?B \<and> ?C)"
    unfolding is_safe_def A B C by simp
  moreover have "?A \<longleftrightarrow> (\<forall>i < length qs. qs ! i \<noteq> c)"
  proof
    assume a: ?A
    show "\<forall>i < length qs. qs ! i \<noteq> c"
    proof (intro allI impI)
      fix i assume "i < length qs"
      then have "int i \<in> set (range_py ?row)" by simp
      with a have "cell qs (int i) c \<noteq> 1" by blast
      with \<open>i < length qs\<close> show "qs ! i \<noteq> c" by (simp add: cell_eq_1)
    qed
  next
    assume "\<forall>i < length qs. qs ! i \<noteq> c"
    then show ?A by (auto simp: cell_eq_1)
  qed
  moreover have "?B \<longleftrightarrow> (\<forall>i < length qs. int i - qs ! i \<noteq> ?row - c)"
  proof
    assume b: ?B
    show "\<forall>i < length qs. int i - qs ! i \<noteq> ?row - c"
    proof (intro allI impI notI)
      fix i assume i: "i < length qs" and e: "int i - qs ! i = ?row - c"
      from in_range_nth[OF r i] have q: "0 \<le> qs ! i" "qs ! i < k" by auto
      have "0 \<le> int i \<and> int i \<le> ?row - 1 \<and> 0 \<le> qs ! i \<and> qs ! i \<le> c - 1
        \<and> ?row - 1 - int i = c - 1 - qs ! i"
        using i e q by auto
      with b have "cell qs (int i) (qs ! i) \<noteq> 1" by blast
      with i show False by (simp add: cell_eq_1)
    qed
  next
    assume h: "\<forall>i < length qs. int i - qs ! i \<noteq> ?row - c"
    show ?B
    proof (intro allI impI notI)
      fix i' j'
      assume a: "0 \<le> i' \<and> i' \<le> ?row - 1 \<and> 0 \<le> j' \<and> j' \<le> c - 1
        \<and> ?row - 1 - i' = c - 1 - j'" and one: "cell qs i' j' = 1"
      from one have "nat i' < length qs" "qs ! nat i' = j'" "0 \<le> i'"
        by (simp_all add: cell_eq_1)
      with h a show False by (auto dest!: spec[of _ "nat i'"])
    qed
  qed
  moreover have "?C \<longleftrightarrow> (\<forall>i < length qs. int i + qs ! i \<noteq> ?row + c)"
  proof
    assume b: ?C
    show "\<forall>i < length qs. int i + qs ! i \<noteq> ?row + c"
    proof (intro allI impI notI)
      fix i assume i: "i < length qs" and e: "int i + qs ! i = ?row + c"
      from in_range_nth[OF r i] have q: "0 \<le> qs ! i" "qs ! i < k" by auto
      have "0 \<le> int i \<and> int i \<le> ?row - 1 \<and> c + 1 \<le> qs ! i \<and> qs ! i < k
        \<and> ?row - 1 - int i = qs ! i - (c + 1)"
        using i e q by auto
      with b have "cell qs (int i) (qs ! i) \<noteq> 1" by blast
      with i show False by (simp add: cell_eq_1)
    qed
  next
    assume h: "\<forall>i < length qs. int i + qs ! i \<noteq> ?row + c"
    show ?C
    proof (intro allI impI notI)
      fix i' j'
      assume a: "0 \<le> i' \<and> i' \<le> ?row - 1 \<and> c + 1 \<le> j' \<and> j' < k
        \<and> ?row - 1 - i' = j' - (c + 1)" and one: "cell qs i' j' = 1"
      from one have "nat i' < length qs" "qs ! nat i' = j'" "0 \<le> i'"
        by (simp_all add: cell_eq_1)
      with h a show False by (auto dest!: spec[of _ "nat i'"])
    qed
  qed
  ultimately show ?thesis by (simp add: safe_iff) blast
qed

section \<open>Enumerating the placements\<close>

lemma advance_simps [simp]:
  "self_n (advance s sols bt) = self_n s"
  "board (advance s sols bt) = board s"
  "solutions (advance s sols bt) = solutions s @ sols"
  "solution_count (advance s sols bt) = solution_count s + int (length sols)"
  "backtrack_count (advance s sols bt) = backtrack_count s + bt"
  by (simp_all add: advance_def)

lemma advance_Nil [simp]: "advance s [] 0 = s"
  by (simp add: advance_def)

lemma advance_advance [simp]:
  "advance (advance s a x) b y = advance s (a @ b) (x + y)"
  by (simp add: advance_def)

lemma in_range_snoc:
  "in_range k qs \<Longrightarrow> int (length qs) < k \<Longrightarrow> 0 \<le> c \<Longrightarrow> c < k \<Longrightarrow> in_range k (qs @ [c])"
  by (auto simp: in_range_def)

lemma in_range_Nil [simp]: "in_range k [] \<longleftrightarrow> 0 \<le> k"
  by (simp add: in_range_def)

subsection \<open>Reading a solution off the board\<close>

lemma pairs_of_map: "pairs_of qs = map (\<lambda>i. (int i, qs ! i)) [0..<length qs]"
  by (rule nth_equalityI) simp_all

lemma filter_eq_single: "distinct xs \<Longrightarrow> x \<in> set xs \<Longrightarrow> filter (\<lambda>c. c = x) xs = [x]"
  by (induction xs) (auto simp: filter_empty_conv)

lemma collect_row_board_of:
  assumes "0 \<le> r" "r < k" "set cs \<subseteq> {0..k - 1}"
  shows "collect_row (board_of k qs) r cs acc
    = Inr (acc @ map (\<lambda>c. (r, c)) (filter (\<lambda>c. cell qs r c = 1) cs))"
  using assms(3)
proof (induction cs arbitrary: acc)
  case Nil
  show ?case by simp
next
  case (Cons c cs)
  then have "board_get (board_of k qs) r c = Inr (cell qs r c)"
    using assms(1,2) by (intro board_get_board_of) auto
  with Cons show ?case by simp
qed

lemma filter_cell_row:
  assumes "in_range k qs" "0 \<le> r"
  shows "filter (\<lambda>c. cell qs r c = 1) (range_py k)
    = (if nat r < length qs then [qs ! nat r] else [])"
proof (cases "nat r < length qs")
  case False
  then show ?thesis by (simp add: cell_eq_1)
next
  case True
  from in_range_nth[OF assms(1) True] have "qs ! nat r \<in> set (range_py k)" by simp
  moreover have "distinct (range_py k)" by (simp add: range_py_def)
  ultimately have "filter (\<lambda>c. c = qs ! nat r) (range_py k) = [qs ! nat r]"
    by (intro filter_eq_single)
  moreover have "(\<lambda>c. cell qs r c = 1) = (\<lambda>c. c = qs ! nat r)"
    using True assms(2) by (auto simp: cell_eq_1 fun_eq_iff)
  ultimately show ?thesis using True by simp
qed

lemma collect_rows_board_of:
  assumes "in_range k qs" "set rs \<subseteq> {0..k - 1}"
  shows "collect_rows k (board_of k qs) rs acc
    = Inr (acc @ concat (map (\<lambda>r. if nat r < length qs then [(r, qs ! nat r)] else []) rs))"
  using assms(2)
proof (induction rs arbitrary: acc)
  case Nil
  show ?case by simp
next
  case (Cons r rs)
  then have r: "0 \<le> r" "r < k" by auto
  have "collect_row (board_of k qs) r (range_py k) acc
      = Inr (acc @ (if nat r < length qs then [(r, qs ! nat r)] else []))"
    using r by (subst collect_row_board_of) (auto simp: filter_cell_row[OF assms(1)])
  with Cons show ?case by simp
qed

lemma concat_rows_pairs:
  "concat (map (\<lambda>r. if nat r < length qs then [(r, qs ! nat r)] else []) (map int [0..<m]))
    = map (\<lambda>i. (int i, qs ! i)) [0..<min m (length qs)]"
proof (induction m)
  case 0
  show ?case by simp
next
  case (Suc m)
  show ?case
  proof (cases "m < length qs")
    case True
    then have "min (Suc m) (length qs) = Suc m" "min m (length qs) = m" by auto
    with Suc True show ?thesis by simp
  next
    case False
    then have "min (Suc m) (length qs) = length qs" "min m (length qs) = length qs" by auto
    with Suc False show ?thesis by simp
  qed
qed

lemma collect_solution_board_of:
  assumes "self_n s = k" "board s = board_of k qs" "in_range k qs"
  shows "collect_solution s = Inr (pairs_of qs)"
proof -
  let ?f = "\<lambda>r. if nat r < length qs then [(r, qs ! nat r)] else []"
  have "length qs \<le> nat k" using assms(3) unfolding in_range_def by linarith
  then have m: "min (nat k) (length qs) = length qs" by simp
  have "concat (map ?f (range_py k)) = concat (map ?f (map int [0..<nat k]))"
    by (simp only: range_py_map)
  also have "\<dots> = map (\<lambda>i. (int i, qs ! i)) [0..<min (nat k) (length qs)]"
    by (rule concat_rows_pairs)
  also have "\<dots> = pairs_of qs"
    by (simp only: m pairs_of_map)
  finally have "concat (map ?f (range_py k)) = pairs_of qs" .
  moreover have "collect_rows k (board_of k qs) (range_py k) []
      = Inr ([] @ concat (map ?f (range_py k)))"
    by (rule collect_rows_board_of[OF assms(3)]) simp
  ultimately show ?thesis
    by (simp add: collect_solution_def assms(1,2))
qed

subsection \<open>The exhaustive search computes the enumeration\<close>

lemma set_remove_insert: "x \<notin> S \<Longrightarrow> set_remove (insert x S) x = Inr S"
  by (simp add: set_remove_def)

lemma safe_unfold:
  "safe qs c \<longleftrightarrow> c \<notin> set qs \<and> int (length qs) - c \<notin> diag1_of qs
     \<and> int (length qs) + c \<notin> diag2_of qs"
  by (simp add: safe_def is_safe_optimized_def)

lemma solve_all_from_refines:
  assumes "self_n s = k" "board s = board_of k qs" "in_range k qs"
  shows "solve_all_from (s, set qs, diag1_of qs, diag2_of qs) (int (length qs))
    = Inr (advance s (map pairs_of (all_sols k qs)) (all_backtracks k qs),
           set qs, diag1_of qs, diag2_of qs)"
  using assms
proof (induction k qs arbitrary: s rule: all_sols.induct)
  case (1 k qs)
  let ?row = "int (length qs)"
  show ?case
  proof (cases "?row = k")
    case True
    have "collect_solution s = Inr (pairs_of qs)"
      using "1.prems" by (rule collect_solution_board_of)
    moreover have "all_sols k qs = [qs]" "all_backtracks k qs = 0"
      using True by (simp_all add: all_sols.simps[of k qs] all_backtracks.simps[of k qs])
    ultimately show ?thesis
      using True "1.prems"(1) by (simp add: solve_all_from.simps advance_def)
  next
    case False
    with "1.prems"(3) have lt: "?row < k" by (simp add: in_range_def)
    let ?sols = "\<lambda>c. if safe qs c then map pairs_of (all_sols k (qs @ [c])) else []"
    let ?bts = "\<lambda>c. if safe qs c then all_backtracks k (qs @ [c]) + 1 else 0"
    have loop: "solve_all_cols (s, set qs, diag1_of qs, diag2_of qs) ?row cs
        = Inr (advance s (concat (map ?sols cs)) (sum_list (map ?bts cs)),
               set qs, diag1_of qs, diag2_of qs)"
      if "set cs \<subseteq> {0..k - 1}" "self_n s = k" "board s = board_of k qs" for cs s
      using that
    proof (induction cs arbitrary: s)
      case Nil
      show ?case by (simp add: solve_all_cols.simps)
    next
      case (Cons c cs)
      then have c: "0 \<le> c" "c < k" "c \<in> set (range_py k)" by auto
      show ?case
      proof (cases "safe qs c")
        case unsafe: False
        then have "\<not> is_safe_optimized ?row c (set qs) (diag1_of qs) (diag2_of qs)"
          by (simp add: safe_def)
        then have "solve_all_cols (s, set qs, diag1_of qs, diag2_of qs) ?row (c # cs)
            = solve_all_cols (s, set qs, diag1_of qs, diag2_of qs) ?row cs"
          by (simp add: solve_all_cols.simps)
        also have "\<dots> = Inr (advance s (concat (map ?sols cs)) (sum_list (map ?bts cs)),
               set qs, diag1_of qs, diag2_of qs)"
          using Cons by simp
        finally show ?thesis using unsafe by simp
      next
        case safe: True
        let ?qc = "qs @ [c]"
        let ?s1 = "s\<lparr>board := board_of k ?qc\<rparr>"
        let ?X = "map pairs_of (all_sols k ?qc)" and ?n = "all_backtracks k ?qc"
        have so: "is_safe_optimized ?row c (set qs) (diag1_of qs) (diag2_of qs)"
          using safe by (simp add: safe_def)
        have notin: "c \<notin> set qs" "?row - c \<notin> diag1_of qs" "?row + c \<notin> diag2_of qs"
          using safe by (simp_all add: safe_unfold)
        have place: "board_set (board s) ?row c 1 = Inr (board_of k ?qc)"
          unfolding Cons.prems(3) using lt c by (intro board_set_place)
        have rng: "in_range k ?qc"
          using "1.prems"(3) lt c by (intro in_range_snoc)
        have rec: "solve_all_from (?s1, set ?qc, diag1_of ?qc, diag2_of ?qc) (int (length ?qc))
            = Inr (advance ?s1 ?X ?n, set ?qc, diag1_of ?qc, diag2_of ?qc)"
          using Cons.prems(2) rng
          by (intro "1.IH"[OF False _ c(3) safe]) (use lt in simp_all)
        have rec': "solve_all_from (?s1, insert c (set qs), insert (?row - c) (diag1_of qs),
              insert (?row + c) (diag2_of qs)) (?row + 1)
            = Inr (advance ?s1 ?X ?n, insert c (set qs), insert (?row - c) (diag1_of qs),
              insert (?row + c) (diag2_of qs))"
          using rec by (simp add: diag1_of_snoc diag2_of_snoc add.commute)
        have unplace: "board_set (board (advance ?s1 ?X ?n)) ?row c 0 = Inr (board_of k qs)"
          using lt c by (simp add: board_set_unplace)
        let ?s3 = "(advance ?s1 ?X ?n)\<lparr>board := board_of k qs,
            backtrack_count := backtrack_count (advance ?s1 ?X ?n) + 1\<rparr>"
        have s3: "?s3 = advance s ?X (?n + 1)"
          using Cons.prems(3) by (simp add: advance_def)
        have "solve_all_cols (s, set qs, diag1_of qs, diag2_of qs) ?row (c # cs)
            = solve_all_cols (?s3, set qs, diag1_of qs, diag2_of qs) ?row cs"
          by (simp add: solve_all_cols.simps so place rec' unplace set_remove_insert notin
              del: advance_simps)
        also have "\<dots> = Inr (advance (advance s ?X (?n + 1)) (concat (map ?sols cs))
              (sum_list (map ?bts cs)), set qs, diag1_of qs, diag2_of qs)"
          unfolding s3 using Cons.prems by (intro Cons.IH) simp_all
        finally show ?thesis using safe by simp
      qed
    qed
    have "solve_all_from (s, set qs, diag1_of qs, diag2_of qs) ?row
        = solve_all_cols (s, set qs, diag1_of qs, diag2_of qs) ?row (range_py k)"
      using False "1.prems"(1) by (simp add: solve_all_from.simps)
    also have "\<dots> = Inr (advance s (concat (map ?sols (range_py k)))
        (sum_list (map ?bts (range_py k))), set qs, diag1_of qs, diag2_of qs)"
      using "1.prems" by (intro loop) simp_all
    also have "concat (map ?sols (range_py k)) = map pairs_of (all_sols k qs)"
      using False lt
      by (subst (2) all_sols.simps) (simp add: map_concat comp_def if_distrib cong: if_cong)
    also have "sum_list (map ?bts (range_py k)) = all_backtracks k qs"
      using lt by (subst (2) all_backtracks.simps) simp
    finally show ?thesis .
  qed
qed

section \<open>Exhaustive search from the empty board\<close>

lemma solve_all_backtrack_eq:
  assumes "board s = board (fresh (self_n s))"
  shows "solve_all_backtrack s 0 None None None
    = Inr (advance s (map pairs_of (all_sols (self_n s) [])) (all_backtracks (self_n s) []),
           {}, {}, {})"
proof (cases "0 \<le> self_n s")
  case True
  have "solve_all_from (s, set [], diag1_of [], diag2_of []) (int (length ([]::int list)))
    = Inr (advance s (map pairs_of (all_sols (self_n s) [])) (all_backtracks (self_n s) []),
           set [], diag1_of [], diag2_of [])"
    using assms True by (intro solve_all_from_refines) (simp_all add: board_fresh_of)
  then show ?thesis by (simp add: solve_all_backtrack_def)
next
  case False
  then have "all_sols (self_n s) [] = []" "all_backtracks (self_n s) [] = 0"
    by (simp_all add: all_sols.simps[of _ "[]"] all_backtracks.simps[of _ "[]"])
  with False show ?thesis
    by (simp add: solve_all_backtrack_def solve_all_from.simps solve_all_cols.simps)
qed

text \<open>
  C10: a top-level call of \<open>solve_all_backtrack\<close> (row 0, no sets passed) on a solver whose
  board is the all-zero board of its size returns with the three sets empty and with the
  object changed in \<open>solutions\<close>, \<open>solution_count\<close> and \<open>backtrack_count\<close> only: the
  board is the all-zero board again (and \<open>self.n\<close> is untouched).
\<close>

theorem solve_all_backtrack_restores:
  assumes "board s = replicate (nat (self_n s)) (replicate (nat (self_n s)) 0)"
  shows "\<exists>sols bt.
    solve_all_backtrack s 0 None None None
      = Inr (s\<lparr>solutions := solutions s @ sols,
               solution_count := solution_count s + int (length sols),
               backtrack_count := backtrack_count s + bt\<rparr>, {}, {}, {})
    \<and> board (s\<lparr>solutions := solutions s @ sols,
               solution_count := solution_count s + int (length sols),
               backtrack_count := backtrack_count s + bt\<rparr>)
      = replicate (nat (self_n s)) (replicate (nat (self_n s)) 0)"
proof -
  have "board s = board (fresh (self_n s))"
    using assms by (simp add: board_fresh)
  from solve_all_backtrack_eq[OF this] assms show ?thesis
    unfolding advance_def
    by (intro exI[of _ "map pairs_of (all_sols (self_n s) [])"]
        exI[of _ "all_backtracks (self_n s) []"] conjI) simp_all
qed

theorem solve_all_backtrack_restores_witness:
  "board (fresh 4) = replicate (nat (self_n (fresh 4))) (replicate (nat (self_n (fresh 4))) 0)
   \<and> (\<exists>sols bt.
    solve_all_backtrack (fresh 4) 0 None None None
      = Inr ((fresh 4)\<lparr>solutions := solutions (fresh 4) @ sols,
               solution_count := solution_count (fresh 4) + int (length sols),
               backtrack_count := backtrack_count (fresh 4) + bt\<rparr>, {}, {}, {}))"
proof -
  have b: "board (fresh 4)
      = replicate (nat (self_n (fresh 4))) (replicate (nat (self_n (fresh 4))) 0)"
    by (simp add: board_fresh)
  from solve_all_backtrack_restores[OF b] b show ?thesis by blast
qed

section \<open>Solution counts\<close>

lemma exhaustive_count_eq:
  "ebind (solve_all_backtrack (fresh k) 0 None None None)
      (\<lambda>(s, cols, diag1, diag2). Inr (length (solutions s), solution_count s))
    = Inr (length (all_sols k []), int (length (all_sols k [])))"
  by (simp add: solve_all_backtrack_eq)

lemma count_4: "length (all_sols 4 []) = 2"
  by code_simp

lemma count_5: "length (all_sols 5 []) = 10"
  by code_simp

lemma count_6: "length (all_sols 6 []) = 4"
  by code_simp

lemma count_7: "length (all_sols 7 []) = 40"
  by code_simp

lemma count_8: "length (all_sols 8 []) = 92"
  by code_simp

text \<open>
  C2: on a fresh solver of size 4, 5, 6, 7 and 8, \<open>solve_all_backtrack()\<close> returns (without
  exception) with 2, 10, 4, 40 and 92 recorded solutions, and \<open>solution_count\<close> is that
  number. Each line pairs the length of \<open>solutions\<close> with \<open>solution_count\<close>.
\<close>

theorem exhaustive_counts:
  "ebind (solve_all_backtrack (fresh 4) 0 None None None)
      (\<lambda>(s, cols, diag1, diag2). Inr (length (solutions s), solution_count s)) = Inr (2, 2)
   \<and> ebind (solve_all_backtrack (fresh 5) 0 None None None)
      (\<lambda>(s, cols, diag1, diag2). Inr (length (solutions s), solution_count s)) = Inr (10, 10)
   \<and> ebind (solve_all_backtrack (fresh 6) 0 None None None)
      (\<lambda>(s, cols, diag1, diag2). Inr (length (solutions s), solution_count s)) = Inr (4, 4)
   \<and> ebind (solve_all_backtrack (fresh 7) 0 None None None)
      (\<lambda>(s, cols, diag1, diag2). Inr (length (solutions s), solution_count s)) = Inr (40, 40)
   \<and> ebind (solve_all_backtrack (fresh 8) 0 None None None)
      (\<lambda>(s, cols, diag1, diag2). Inr (length (solutions s), solution_count s)) = Inr (92, 92)"
  by (simp only: exhaustive_count_eq count_4 count_5 count_6 count_7 count_8) simp

section \<open>Every recorded solution is valid and recorded once\<close>

lemma consistent_Nil [simp]: "consistent []"
  by (simp add: consistent_def)

lemma consistent_snoc: "consistent (qs @ [c]) \<longleftrightarrow> consistent qs \<and> safe qs c"
  unfolding consistent_def safe_unfold diag1_of_def diag2_of_def pairs_of_snoc
  by auto

lemma all_sols_extends:
  "sol \<in> set (all_sols k qs) \<Longrightarrow> int (length sol) = k \<and> take (length qs) sol = qs"
proof (induction k qs rule: all_sols.induct)
  case (1 k qs)
  show ?case
  proof (cases "int (length qs) = k")
    case True
    with "1.prems" show ?thesis by (simp add: all_sols.simps[of k qs])
  next
    case False
    with "1.prems" obtain c where c: "c \<in> set (range_py k)" "safe qs c"
      "\<not> int (length qs) > k" "sol \<in> set (all_sols k (qs @ [c]))"
      by (auto simp: all_sols.simps[of k qs] split: if_splits)
    from "1.IH"[OF False c(3) c(1,2,4)]
    have "int (length sol) = k" "take (length (qs @ [c])) sol = qs @ [c]" by simp_all
    moreover from this(2) have "take (length qs) (take (length (qs @ [c])) sol) = qs"
      by simp
    then have "take (length qs) sol = qs" by (simp add: min_def)
    ultimately show ?thesis by simp
  qed
qed

lemma all_sols_consistent:
  "sol \<in> set (all_sols k qs) \<Longrightarrow> consistent qs \<Longrightarrow> consistent sol"
proof (induction k qs rule: all_sols.induct)
  case (1 k qs)
  show ?case
  proof (cases "int (length qs) = k")
    case True
    with "1.prems" show ?thesis by (simp add: all_sols.simps[of k qs])
  next
    case False
    with "1.prems" obtain c where c: "c \<in> set (range_py k)" "safe qs c"
      "\<not> int (length qs) > k" "sol \<in> set (all_sols k (qs @ [c]))"
      by (auto simp: all_sols.simps[of k qs] split: if_splits)
    from "1.IH"[OF False c(3) c(1,2,4)] "1.prems"(2) c(2)
    show ?thesis by (simp add: consistent_snoc)
  qed
qed

lemma all_sols_nth:
  assumes "sol \<in> set (all_sols k (qs @ [c]))"
  shows "sol ! length qs = c"
proof -
  from all_sols_extends[OF assms] have t: "take (Suc (length qs)) sol = qs @ [c]" by simp
  have "sol ! length qs = take (Suc (length qs)) sol ! length qs" by simp
  also have "\<dots> = c" unfolding t by simp
  finally show ?thesis .
qed

lemma distinct_all_sols: "distinct (all_sols k qs)"
proof (induction k qs rule: all_sols.induct)
  case (1 k qs)
  show ?case
  proof (cases "int (length qs) = k \<or> int (length qs) > k")
    case True
    then show ?thesis by (auto simp: all_sols.simps[of k qs])
  next
    case False
    let ?f = "\<lambda>c. if safe qs c then all_sols k (qs @ [c]) else []"
    have d: "distinct (concat (map ?f cs))"
      if "distinct cs" "set cs \<subseteq> set (range_py k)" for cs
      using that
    proof (induction cs)
      case Nil
      show ?case by simp
    next
      case (Cons c cs)
      have "distinct (?f c)"
        using "1.IH"[of c] False Cons.prems by auto
      moreover have "set (?f c) \<inter> set (concat (map ?f cs)) = {}"
      proof (rule ccontr)
        assume "set (?f c) \<inter> set (concat (map ?f cs)) \<noteq> {}"
        then obtain sol c' where "sol \<in> set (?f c)" "c' \<in> set cs" "sol \<in> set (?f c')"
          by auto
        then have "sol ! length qs = c" "sol ! length qs = c'"
          by (auto dest: all_sols_nth split: if_splits)
        with \<open>c' \<in> set cs\<close> Cons.prems(1) show False by auto
      qed
      ultimately show ?case using Cons by simp
    qed
    have "distinct (range_py k)" by (simp add: range_py_def)
    from d[OF this] False show ?thesis
      by (simp add: all_sols.simps[of k qs])
  qed
qed

lemma inj_pairs_of: "inj_on pairs_of A"
  by (rule inj_on_inverseI[where g = "map snd"]) simp

lemma validate_pairs_of:
  assumes "self_n s = int (length qs)" "consistent qs"
  shows "validate_solution s (pairs_of qs)"
  using assms
  by (simp add: validate_solution_def validate_loop_iff consistent_def distinct_map
      inj_on_def)

text \<open>
  C4: for every board size (positive or not), exhaustive search on a fresh solver returns
  without exception, every entry of its \<open>solutions\<close> list passes \<open>validate_solution\<close>, and
  the list has no two equal entries.
\<close>

theorem solve_all_solutions_valid_distinct:
  "\<exists>s'. solve_all_backtrack (fresh k) 0 None None None = Inr (s', {}, {}, {})
     \<and> (\<forall>sol \<in> set (solutions s'). validate_solution s' sol)
     \<and> distinct (solutions s')"
proof -
  let ?s' = "advance (fresh k) (map pairs_of (all_sols k [])) (all_backtracks k [])"
  have run: "solve_all_backtrack (fresh k) 0 None None None = Inr (?s', {}, {}, {})"
    using solve_all_backtrack_eq[of "fresh k"] by simp
  have "validate_solution ?s' sol" if "sol \<in> set (solutions ?s')" for sol
  proof -
    from that obtain qs where qs: "qs \<in> set (all_sols k [])" "sol = pairs_of qs" by auto
    from all_sols_extends[OF qs(1)] have "int (length qs) = k" by simp
    moreover from all_sols_consistent[OF qs(1)] have "consistent qs" by simp
    ultimately show ?thesis unfolding qs(2) by (intro validate_pairs_of) simp_all
  qed
  moreover have "distinct (solutions ?s')"
    by (simp add: distinct_map distinct_all_sols inj_pairs_of)
  ultimately show ?thesis using run by blast
qed

theorem solve_all_solutions_valid_distinct_witness:
  "\<exists>s' sol. solve_all_backtrack (fresh 4) 0 None None None = Inr (s', {}, {}, {})
     \<and> sol \<in> set (solutions s') \<and> validate_solution s' sol \<and> distinct (solutions s')"
proof -
  from solve_all_solutions_valid_distinct[of 4] obtain s' where
    s': "solve_all_backtrack (fresh 4) 0 None None None = Inr (s', {}, {}, {})"
      "\<forall>sol \<in> set (solutions s'). validate_solution s' sol" "distinct (solutions s')"
    by blast
  from s'(1) have "s' = advance (fresh 4) (map pairs_of (all_sols 4 [])) (all_backtracks 4 [])"
    by (simp add: solve_all_backtrack_eq)
  then have "length (solutions s') = 2"
    by (simp add: count_4)
  then obtain sol where "sol \<in> set (solutions s')"
    by (cases "solutions s'") auto
  with s' show ?thesis by blast
qed

section \<open>Symmetry analysis\<close>

lemma fold_insert_map: "fold (\<lambda>x u. insert (f x) u) xs A = set (map f xs) \<union> A"
  by (induction xs arbitrary: A) auto

lemma unique_solutions_eq: "unique_solutions sols = set (map sort sols)"
  by (simp add: unique_solutions_def fold_insert_map)

lemma unique_solutions_sorted:
  assumes "distinct sols" "\<forall>sol \<in> set sols. sorted sol"
  shows "card (unique_solutions sols) = length sols"
proof -
  have "map sort sols = sols"
    using assms(2) by (induction sols) (simp_all add: sorted_sort_id)
  then show ?thesis
    using assms(1) by (simp add: unique_solutions_eq distinct_card)
qed

lemma sorted_pairs_of: "sorted (pairs_of qs)"
  unfolding sorted_iff_nth_mono_less
  by (simp add: less_eq_prod_def)

text \<open>
  C9: on a list of pairwise distinct solutions, each listed in ascending order of its
  pairs, the set of sorted tuples that \<open>analyze_symmetry\<close> builds has as many elements as
  the list. The list that exhaustive search leaves in \<open>solutions\<close> is such a list (for
  every board size), so the two numbers \<open>analyze_symmetry\<close> reports for it are equal:
  nothing is merged, in particular no rotation or reflection.
\<close>

theorem symmetry_analysis_counts:
  "(distinct sols \<and> (\<forall>sol \<in> set sols. sorted sol)
      \<longrightarrow> card (unique_solutions sols) = length sols)
   \<and> (\<exists>s'. solve_all_backtrack (fresh k) 0 None None None = Inr (s', {}, {}, {})
        \<and> distinct (solutions s')
        \<and> card (unique_solutions (solutions s')) = length (solutions s')
        \<and> analyze_symmetry (solutions s') k
            = (if solutions s' = [] then None
               else Some (length (solutions s'), length (solutions s'))))"
proof (intro conjI impI)
  assume "distinct sols \<and> (\<forall>sol \<in> set sols. sorted sol)"
  then show "card (unique_solutions sols) = length sols"
    by (simp add: unique_solutions_sorted)
next
  let ?s' = "advance (fresh k) (map pairs_of (all_sols k [])) (all_backtracks k [])"
  have run: "solve_all_backtrack (fresh k) 0 None None None = Inr (?s', {}, {}, {})"
    using solve_all_backtrack_eq[of "fresh k"] by simp
  have d: "distinct (solutions ?s')"
    by (simp add: distinct_map distinct_all_sols inj_pairs_of)
  moreover have "\<forall>sol \<in> set (solutions ?s'). sorted sol"
    by (auto simp: sorted_pairs_of)
  ultimately have c: "card (unique_solutions (solutions ?s')) = length (solutions ?s')"
    by (rule unique_solutions_sorted)
  then have "analyze_symmetry (solutions ?s') k
      = (if solutions ?s' = [] then None
         else Some (length (solutions ?s'), length (solutions ?s')))"
    by (simp add: analyze_symmetry_def)
  with run d c show "\<exists>s'. solve_all_backtrack (fresh k) 0 None None None = Inr (s', {}, {}, {})
        \<and> distinct (solutions s')
        \<and> card (unique_solutions (solutions s')) = length (solutions s')
        \<and> analyze_symmetry (solutions s') k
            = (if solutions s' = [] then None
               else Some (length (solutions s'), length (solutions s')))"
    by blast
qed

lemma solutions_4:
  "all_sols 4 [] = [[1, 3, 0, 2], [2, 0, 3, 1]]"
  by code_simp

theorem symmetry_analysis_counts_witness:
  "distinct [[(0, 1), (1, 3), (2, 0), (3, 2)], [(0, 2), (1, 0), (2, 3), (3, 1::int)] :: (int \<times> int) list]
   \<and> sorted ([(0, 1), (1, 3), (2, 0), (3, 2)] :: (int \<times> int) list)
   \<and> sorted ([(0, 2), (1, 0), (2, 3), (3, 1)] :: (int \<times> int) list)
   \<and> card (unique_solutions
        [[(0, 1), (1, 3), (2, 0), (3, 2)], [(0, 2), (1, 0), (2, 3), (3, 1)]]) = 2
   \<and> (\<exists>s'. solve_all_backtrack (fresh 4) 0 None None None = Inr (s', {}, {}, {})
        \<and> solutions s' = [[(0, 1), (1, 3), (2, 0), (3, 2)], [(0, 2), (1, 0), (2, 3), (3, 1)]]
        \<and> analyze_symmetry (solutions s') 4 = Some (2, 2))"
proof -
  let ?S = "[[(0, 1), (1, 3), (2, 0), (3, 2)], [(0, 2), (1, 0), (2, 3), (3, 1)]]
    :: (int \<times> int) list list"
  have h: "distinct ?S \<and> (\<forall>sol \<in> set ?S. sorted sol)"
    by (simp add: less_eq_prod_def)
  from symmetry_analysis_counts[of ?S 4] h obtain s' where
    c: "card (unique_solutions ?S) = length ?S" and
    s': "solve_all_backtrack (fresh 4) 0 None None None = Inr (s', {}, {}, {})"
      "analyze_symmetry (solutions s') 4
        = (if solutions s' = [] then None
           else Some (length (solutions s'), length (solutions s')))"
    by blast
  from s'(1) have "s' = advance (fresh 4) (map pairs_of (all_sols 4 [])) (all_backtracks 4 [])"
    by (simp add: solve_all_backtrack_eq)
  then have sol: "solutions s' = ?S"
    by (simp add: solutions_4 pairs_of_def)
  with s' c h show ?thesis by auto
qed

section \<open>The sets mirror the board throughout the exhaustive search\<close>

text \<open>The points follow the method: a loop that returns has passed through the points
  leading to its result.\<close>

lemma visits_follows_loop:
  assumes "solve_all_cols st row cs = Inr st'" "visits st0 row0 (At_loop st row cs)"
  shows "visits st0 row0 (At_loop st' row [])"
  using assms
proof (induction cs arbitrary: st)
  case Nil
  obtain s cols diag1 diag2 where st: "st = (s, cols, diag1, diag2)" by (cases st)
  from Nil show ?case by (simp add: st solve_all_cols.simps)
next
  case (Cons col rest)
  obtain s cols diag1 diag2 where st: "st = (s, cols, diag1, diag2)" by (cases st)
  show ?case
  proof (cases "is_safe_optimized row col cols diag1 diag2")
    case False
    with Cons.prems(1) have "solve_all_cols st row rest = Inr st'"
      by (simp add: st solve_all_cols.simps)
    moreover have "visits st0 row0 (At_loop st row rest)"
      using Cons.prems(2) False unfolding st by (rule v_skip)
    ultimately show ?thesis by (rule Cons.IH)
  next
    case True
    with Cons.prems(1) obtain b1 s2 cols2 diag12 diag22 b3 cols3 diag13 diag23 where
      b1: "board_set (board s) row col 1 = Inr b1" and
      rec: "solve_all_from (s\<lparr>board := b1\<rparr>, insert col cols,
              insert (row - col) diag1, insert (row + col) diag2) (row + 1)
            = Inr (s2, cols2, diag12, diag22)" and
      b3: "board_set (board s2) row col 0 = Inr b3" and
      c3: "set_remove cols2 col = Inr cols3" and
      d13: "set_remove diag12 (row - col) = Inr diag13" and
      d23: "set_remove diag22 (row + col) = Inr diag23" and
      loop: "solve_all_cols
               (s2\<lparr>board := b3, backtrack_count := backtrack_count s2 + 1\<rparr>,
                cols3, diag13, diag23) row rest = Inr st'"
      by (auto simp: st solve_all_cols.simps ebind_eq_Inr)
    have "visits st0 row0 (At_return (s2, cols2, diag12, diag22) row col rest)"
      using Cons.prems(2)[unfolded st] True b1 rec by (rule v_return)
    then have "visits st0 row0
        (At_loop (s2\<lparr>board := b3, backtrack_count := backtrack_count s2 + 1\<rparr>,
                  cols3, diag13, diag23) row rest)"
      using b3 c3 d13 d23 by (rule v_undo)
    with loop show ?thesis by (rule Cons.IH)
  qed
qed

subsection \<open>The queens on the board of a placement\<close>

lemma filter_nat_single:
  "x < m \<Longrightarrow> filter (\<lambda>j. int j = int x) [0..<m] = [x]"
  using filter_eq_single[of "[0..<m]" x] by simp

lemma queens_on_board_of:
  assumes "in_range k qs \<or> qs = []"
  shows "queens_on (board_of k qs) = pairs_of qs"
proof -
  let ?b = "board_of k qs"
  have len: "length qs \<le> nat k"
    using assms unfolding in_range_def by auto
  have row: "map (\<lambda>j. (int i, int j)) (filter (\<lambda>j. ?b ! i ! j = 1) [0..<length (?b ! i)])
      = (if nat (int i) < length qs then [(int i, qs ! nat (int i))] else [])"
    if i: "i < nat k" for i
  proof -
    have l: "length (?b ! i) = nat k" using i by (simp add: nth_board_of)
    have f: "filter (\<lambda>j. ?b ! i ! j = 1) [0..<nat k]
        = filter (\<lambda>j. cell qs (int i) (int j) = 1) [0..<nat k]"
      using i by (intro filter_cong) (simp_all add: nth_nth_board_of)
    show ?thesis
    proof (cases "i < length qs")
      case False
      then show ?thesis
        unfolding l f by (simp add: cell_eq_1)
    next
      case True
      with assms have r: "in_range k qs" by auto
      from in_range_nth[OF r True] have q: "0 \<le> qs ! i" "nat (qs ! i) < nat k" by auto
      have "(\<lambda>j. cell qs (int i) (int j) = 1) = (\<lambda>j. int j = int (nat (qs ! i)))"
        using True q by (auto simp: cell_eq_1 fun_eq_iff)
      then have "filter (\<lambda>j. cell qs (int i) (int j) = 1) [0..<nat k] = [nat (qs ! i)]"
        using filter_nat_single[OF q(2)] by simp
      then show ?thesis
        unfolding l f using True q by simp
    qed
  qed
  have "queens_on ?b
      = concat (map (\<lambda>i. if nat (int i) < length qs then [(int i, qs ! nat (int i))] else [])
          [0..<nat k])"
    unfolding queens_on_def length_board_of
    by (rule arg_cong[where f = concat], rule map_cong) (simp_all add: row)
  also have "\<dots> = concat (map (\<lambda>r. if nat r < length qs then [(r, qs ! nat r)] else [])
      (map int [0..<nat k]))"
    by (simp add: comp_def)
  also have "\<dots> = map (\<lambda>i. (int i, qs ! i)) [0..<min (nat k) (length qs)]"
    by (rule concat_rows_pairs)
  also have "\<dots> = pairs_of qs"
    using len by (simp add: pairs_of_map min_def)
  finally show ?thesis .
qed

subsection \<open>The invariant of the run\<close>

lemma tracks_place:
  assumes t: "tracks k (s, cols, diag1, diag2) qs"
    and row: "int (length qs) < k" and col: "0 \<le> col" "col < k"
    and safe: "is_safe_optimized (int (length qs)) col cols diag1 diag2"
    and set: "board_set (board s) (int (length qs)) col 1 = Inr b1"
  shows "tracks k (s\<lparr>board := b1\<rparr>, insert col cols,
      insert (int (length qs) - col) diag1, insert (int (length qs) + col) diag2) (qs @ [col])"
proof -
  from t have e: "cols = set qs" "diag1 = diag1_of qs" "diag2 = diag2_of qs"
    "self_n s = k" "board s = board_of k qs" "consistent qs" "set qs \<subseteq> {0..k - 1}"
    by (simp_all add: tracks_def)
  from set have "b1 = board_of k (qs @ [col])"
    unfolding e using board_set_place[OF row col] by simp
  moreover from safe have "safe qs col" by (simp add: safe_def e)
  ultimately show ?thesis
    using e row col by (simp add: tracks_def diag1_of_snoc diag2_of_snoc consistent_snoc)
qed

lemma visits_run_inv:
  assumes "self_n s0 = k" "board s0 = board_of k []"
    and "visits (s0, {}, {}, {}) 0 p"
  shows "run_inv k p"
  using assms(3)
proof (induction rule: visits.induct)
  case v_start
  have "tracks k (s0, {}, {}, {}) []"
    using assms(1,2) by (simp add: tracks_def)
  then show ?case by auto
next
  case (v_enter s cols diag1 diag2 row)
  then obtain qs where qs: "tracks k (s, cols, diag1, diag2) qs" "row = int (length qs)"
    by auto
  from qs(1) have "self_n s = k" "int (length qs) \<le> k \<or> qs = []"
    by (simp_all add: tracks_def)
  with v_enter(2) qs(2) have "range_py (self_n s) = [] \<or> row < k"
    by (cases "0 \<le> k") auto
  with qs \<open>self_n s = k\<close> show ?case by auto
next
  case (v_skip s cols diag1 diag2 row col rest)
  then show ?case by auto
next
  case (v_descend s cols diag1 diag2 row col rest b1)
  then obtain qs where qs: "tracks k (s, cols, diag1, diag2) qs" "row = int (length qs)"
    "0 \<le> col" "col < k" "row < k"
    by auto
  from tracks_place[OF qs(1) qs(5)[unfolded qs(2)] qs(3,4) v_descend(2,3)[unfolded qs(2)]]
  show ?case unfolding qs(2) by (auto intro!: exI[of _ "qs @ [col]"])
next
  case (v_return s cols diag1 diag2 row col rest b1 st2)
  then obtain qs where qs: "tracks k (s, cols, diag1, diag2) qs" "row = int (length qs)"
    "0 \<le> col" "col < k" "row < k" "set rest \<subseteq> {0..k - 1}"
    by auto
  let ?qc = "qs @ [col]"
  let ?s1 = "s\<lparr>board := b1\<rparr>"
  from tracks_place[OF qs(1) qs(5)[unfolded qs(2)] qs(3,4) v_return(2,3)[unfolded qs(2)]]
  have t: "tracks k (?s1, insert col cols, insert (row - col) diag1,
      insert (row + col) diag2) ?qc"
    unfolding qs(2) .
  then have e: "insert col cols = set ?qc" "insert (row - col) diag1 = diag1_of ?qc"
    "insert (row + col) diag2 = diag2_of ?qc" "self_n ?s1 = k" "board ?s1 = board_of k ?qc"
    "consistent ?qc" "set ?qc \<subseteq> {0..k - 1}"
    by (simp_all add: tracks_def)
  have r: "in_range k ?qc"
    using e(7) qs(2,5) by (simp add: in_range_def)
  have len: "int (length ?qc) = row + 1" using qs(2) by simp
  have "solve_all_from (?s1, set ?qc, diag1_of ?qc, diag2_of ?qc) (row + 1)
      = Inr (advance ?s1 (map pairs_of (all_sols k ?qc)) (all_backtracks k ?qc),
             set ?qc, diag1_of ?qc, diag2_of ?qc)"
    using solve_all_from_refines[OF e(4,5) r] unfolding len .
  with v_return(4)[unfolded e(1-3)]
  have "st2 = (advance ?s1 (map pairs_of (all_sols k ?qc)) (all_backtracks k ?qc),
             set ?qc, diag1_of ?qc, diag2_of ?qc)"
    by (simp only: sum.inject)
  then have "tracks k st2 ?qc"
    using e r by (simp add: tracks_def in_range_def)
  with qs show ?case by auto
next
  case (v_undo s2 cols2 diag12 diag22 row col rest b3 cols3 diag13 diag23)
  then obtain qs where qs: "tracks k (s2, cols2, diag12, diag22) (qs @ [col])"
    "row = int (length qs)" "row < k" "0 \<le> col" "col < k" "set rest \<subseteq> {0..k - 1}"
    by auto
  let ?qc = "qs @ [col]"
  from qs(1) have e: "cols2 = set ?qc" "diag12 = diag1_of ?qc" "diag22 = diag2_of ?qc"
    "self_n s2 = k" "board s2 = board_of k ?qc" "consistent ?qc" "set ?qc \<subseteq> {0..k - 1}"
    by (simp_all add: tracks_def)
  from e(6) have c: "consistent qs" "safe qs col" by (simp_all add: consistent_snoc)
  from c(2) have notin: "col \<notin> set qs" "row - col \<notin> diag1_of qs" "row + col \<notin> diag2_of qs"
    by (simp_all add: safe_unfold qs(2))
  have "b3 = board_of k qs"
    using v_undo(2) board_set_unplace[of qs k col] qs(2-5) unfolding e by simp
  moreover have "cols3 = set qs" "diag13 = diag1_of qs" "diag23 = diag2_of qs"
    using v_undo(3-5) notin unfolding e
    by (simp_all add: diag1_of_snoc diag2_of_snoc qs(2) set_remove_insert)
  ultimately have "tracks k (s2\<lparr>board := b3, backtrack_count := backtrack_count s2 + 1\<rparr>,
      cols3, diag13, diag23) qs"
    using e c qs by (simp add: tracks_def)
  with qs show ?case by auto
qed

lemma tracks_mirrors:
  assumes "tracks k st qs"
  shows "mirrors st"
proof -
  obtain s cols diag1 diag2 where st: "st = (s, cols, diag1, diag2)" by (cases st)
  from assms have e: "cols = set qs" "diag1 = diag1_of qs" "diag2 = diag2_of qs"
    "board s = board_of k qs" "consistent qs" "set qs \<subseteq> {0..k - 1}"
    "int (length qs) \<le> k \<or> qs = []"
    unfolding st tracks_def by simp_all
  have "in_range k qs \<or> qs = []" using e(6,7) by (auto simp: in_range_def)
  then have q: "queens_on (board s) = pairs_of qs"
    unfolding e(4) by (rule queens_on_board_of)
  show ?thesis
    unfolding st mirrors_def prod.case q e(1-3)
    using e(5) by (simp add: consistent_def diag1_of_def diag2_of_def)
qed

text \<open>
  C7: in a run of exhaustive search started at row 0 with empty sets on a solver whose
  board is the all-zero board of its size, at every point of the run (call entries, loop
  heads, returns of recursive calls) the sets \<open>cols\<close>, \<open>diag1\<close>, \<open>diag2\<close> hold exactly the
  columns, \<open>row - col\<close> and \<open>row + col\<close> values of the queens on the board, each value
  once; and at every loop head the board-scanning \<open>is_safe\<close> returns, without exception,
  the boolean that \<open>is_safe_optimized\<close> returns for the column about to be tried.
\<close>

theorem sets_mirror_board:
  assumes "board s0 = replicate (nat (self_n s0)) (replicate (nat (self_n s0)) 0)"
    and "visits (s0, {}, {}, {}) 0 p"
  shows "mirrors (state_at p) \<and>
    (\<forall>s cols diag1 diag2 row col rest.
       p = At_loop (s, cols, diag1, diag2) row (col # rest) \<longrightarrow>
       is_safe s row col = Inr (is_safe_optimized row col cols diag1 diag2))"
proof -
  let ?k = "self_n s0"
  have "board s0 = board_of ?k []"
    using assms(1) board_fresh[of ?k] board_fresh_of[of ?k] by simp
  from visits_run_inv[OF refl this assms(2)] have inv: "run_inv ?k p" .
  have "mirrors (state_at p)"
    using inv by (cases p) (auto intro: tracks_mirrors)
  moreover have "is_safe s row col = Inr (is_safe_optimized row col cols diag1 diag2)"
    if p: "p = At_loop (s, cols, diag1, diag2) row (col # rest)"
    for s cols diag1 diag2 row col rest
  proof -
    from inv obtain qs where qs: "tracks ?k (s, cols, diag1, diag2) qs"
      "row = int (length qs)" "0 \<le> col" "col < ?k" "row < ?k"
      unfolding p by auto
    from qs(1) have e: "cols = set qs" "diag1 = diag1_of qs" "diag2 = diag2_of qs"
      "self_n s = ?k" "board s = board_of ?k qs" "set qs \<subseteq> {0..?k - 1}"
      by (simp_all add: tracks_def)
    have "in_range ?k qs" using e(6) qs(2,5) by (simp add: in_range_def)
    from is_safe_board_of[OF e(4,5) this qs(3,4)]
    show ?thesis unfolding qs(2) e(1-3) by (simp add: safe_def)
  qed
  ultimately show ?thesis by blast
qed

lemma range_py_4: "range_py 4 = [0, 1, 2, 3]"
  by (simp add: range_py_def upto.simps)

lemma visits_example:
  "visits (fresh 4, {}, {}, {}) 0
     (At_loop ((fresh 4)\<lparr>board := [[1, 0, 0, 0], [0, 0, 0, 0], [0, 0, 0, 0], [0, 0, 0, 0]]\<rparr>,
               {0}, {0}, {0}) 1 [0, 1, 2, 3])"
proof -
  let ?st0 = "(fresh 4, {}, {}, {}) :: search"
  let ?B = "[[1, 0, 0, 0], [0, 0, 0, 0], [0, 0, 0, 0], [0, 0, 0, 0]] :: int list list"
  have "visits ?st0 0 (At_call ?st0 0)"
    by (rule v_start)
  then have "visits ?st0 0 (At_loop ?st0 0 (range_py (self_n (fresh 4))))"
    by (rule v_enter) simp
  then have l0: "visits ?st0 0 (At_loop ?st0 0 (0 # [1, 2, 3]))"
    by (simp add: range_py_4)
  have safe: "is_safe_optimized 0 0 {} {} {}"
    by (simp add: is_safe_optimized_def)
  have place: "board_set (board (fresh 4)) 0 0 1 = Inr ?B"
    by (simp add: fresh_def range_py_4 board_set_def getitem_def setitem_def)
  have "visits ?st0 0 (At_call ((fresh 4)\<lparr>board := ?B\<rparr>, insert 0 {}, insert (0 - 0) {},
      insert (0 + 0) {}) (0 + 1))"
    by (rule v_descend[OF l0 safe place])
  then have "visits ?st0 0 (At_loop ((fresh 4)\<lparr>board := ?B\<rparr>, insert 0 {}, insert (0 - 0) {},
      insert (0 + 0) {}) (0 + 1) (range_py (self_n ((fresh 4)\<lparr>board := ?B\<rparr>))))"
    by (rule v_enter) simp
  then show ?thesis
    by (simp add: range_py_4)
qed

theorem sets_mirror_board_witness:
  "board (fresh 4) = replicate (nat (self_n (fresh 4))) (replicate (nat (self_n (fresh 4))) 0)
   \<and> visits (fresh 4, {}, {}, {}) 0
     (At_loop ((fresh 4)\<lparr>board := [[1, 0, 0, 0], [0, 0, 0, 0], [0, 0, 0, 0], [0, 0, 0, 0]]\<rparr>,
               {0}, {0}, {0}) 1 [0, 1, 2, 3])
   \<and> mirrors ((fresh 4)\<lparr>board := [[1, 0, 0, 0], [0, 0, 0, 0], [0, 0, 0, 0], [0, 0, 0, 0]]\<rparr>,
               {0}, {0}, {0})
   \<and> is_safe ((fresh 4)\<lparr>board := [[1, 0, 0, 0], [0, 0, 0, 0], [0, 0, 0, 0], [0, 0, 0, 0]]\<rparr>)
        1 0 = Inr False
   \<and> \<not> is_safe_optimized 1 0 {0} {0} {0}"
proof -
  have b: "board (fresh 4)
      = replicate (nat (self_n (fresh 4))) (replicate (nat (self_n (fresh 4))) 0)"
    by (simp add: board_fresh)
  have n: "\<not> is_safe_optimized 1 0 {0} {0} {0}"
    by (simp add: is_safe_optimized_def)
  from sets_mirror_board[OF b visits_example] n b visits_example show ?thesis
    by simp
qed

section \<open>First-solution search computes the head of the enumeration\<close>

lemma first_result_cong:
  "self_n s' = self_n s \<Longrightarrow> s'\<lparr>backtrack_count := bc\<rparr> = s\<lparr>backtrack_count := bc\<rparr> \<Longrightarrow>
     first_result s' sols bc = first_result s sols bc"
proof -
  assume n: "self_n s' = self_n s" and e: "s'\<lparr>backtrack_count := bc\<rparr> = s\<lparr>backtrack_count := bc\<rparr>"
  have "s'\<lparr>board := b, backtrack_count := bc\<rparr> = s\<lparr>board := b, backtrack_count := bc\<rparr>" for b
  proof -
    have "s'\<lparr>board := b, backtrack_count := bc\<rparr> = (s'\<lparr>backtrack_count := bc\<rparr>)\<lparr>board := b\<rparr>"
      by simp
    also have "\<dots> = (s\<lparr>backtrack_count := bc\<rparr>)\<lparr>board := b\<rparr>" by (simp only: e)
    finally show ?thesis by simp
  qed
  with n e show ?thesis by (simp add: first_result_def split: list.splits)
qed

lemma solve_backtrack_refines:
  assumes "self_n s = k" "board s = board_of k qs" "in_range k qs"
  shows "\<exists>bc. solve_backtrack s (int (length qs)) = Inr (first_result s (all_sols k qs) bc)"
  using assms
proof (induction k qs arbitrary: s rule: all_sols.induct)
  case (1 k qs)
  let ?row = "int (length qs)"
  show ?case
  proof (cases "?row = k")
    case True
    then have "all_sols k qs = [qs]" by (simp add: all_sols.simps[of k qs])
    moreover have "solve_backtrack s ?row = Inr (True, s)"
      using True "1.prems"(1) by (simp add: solve_backtrack.simps)
    moreover have "s\<lparr>board := board_of (self_n s) qs, backtrack_count := backtrack_count s\<rparr> = s"
      using "1.prems"(1,2) by simp
    ultimately show ?thesis
      by (auto simp: first_result_def intro!: exI[of _ "backtrack_count s"])
  next
    case False
    with "1.prems"(3) have lt: "?row < k" by (simp add: in_range_def)
    let ?f = "\<lambda>c. if safe qs c then all_sols k (qs @ [c]) else []"
    have loop: "\<exists>bc. solve_backtrack_cols s ?row cs = Inr (first_result s (concat (map ?f cs)) bc)"
      if "set cs \<subseteq> {0..k - 1}" "self_n s = k" "board s = board_of k qs" for cs s
      using that
    proof (induction cs arbitrary: s)
      case Nil
      have "s\<lparr>backtrack_count := backtrack_count s\<rparr> = s" by simp
      then show ?case
        by (auto simp: solve_backtrack_cols.simps first_result_def
            intro!: exI[of _ "backtrack_count s"])
    next
      case (Cons c cs)
      then have c: "0 \<le> c" "c < k" "c \<in> set (range_py k)" by auto
      have safe: "is_safe s ?row c = Inr (safe qs c)"
        using Cons.prems(2,3) "1.prems"(3) c(1,2) by (rule is_safe_board_of)
      show ?case
      proof (cases "safe qs c")
        case unsafe: False
        from Cons.IH[of s] Cons.prems obtain bc where
          "solve_backtrack_cols s ?row cs = Inr (first_result s (concat (map ?f cs)) bc)"
          by auto
        then show ?thesis
          using unsafe safe by (auto simp: solve_backtrack_cols.simps)
      next
        case ok: True
        let ?qc = "qs @ [c]"
        let ?s1 = "s\<lparr>board := board_of k ?qc\<rparr>"
        have place: "board_set (board s) ?row c 1 = Inr (board_of k ?qc)"
          unfolding Cons.prems(3) using lt c by (intro board_set_place)
        have rng: "in_range k ?qc"
          using "1.prems"(3) lt c by (intro in_range_snoc)
        have "\<exists>bc. solve_backtrack ?s1 (int (length ?qc))
            = Inr (first_result ?s1 (all_sols k ?qc) bc)"
          using Cons.prems(2) rng
          by (intro "1.IH"[OF False _ c(3) ok]) (use lt in simp_all)
        then obtain bc1 where rec: "solve_backtrack ?s1 (?row + 1)
            = Inr (first_result ?s1 (all_sols k ?qc) bc1)"
          by (auto simp: add.commute)
        show ?thesis
        proof (cases "all_sols k ?qc")
          case (Cons sol rest)
          have "solve_backtrack_cols s ?row (c # cs)
              = Inr (True, ?s1\<lparr>board := board_of k sol, backtrack_count := bc1\<rparr>)"
            using Cons.prems(2)
            by (simp add: solve_backtrack_cols.simps safe ok place rec Cons first_result_def)
          moreover have "first_result s (concat (map ?f (c # cs))) bc1
              = (True, s\<lparr>board := board_of k sol, backtrack_count := bc1\<rparr>)"
            using ok Cons Cons.prems(2) by (simp add: first_result_def)
          ultimately show ?thesis by (auto intro!: exI[of _ bc1])
        next
          case Nil
          let ?s3 = "s\<lparr>backtrack_count := bc1 + 1\<rparr>"
          have unplace: "board_set (board_of k ?qc) ?row c 0 = Inr (board_of k qs)"
            using lt c by (intro board_set_unplace)
          have s3: "s\<lparr>board := board_of k qs, backtrack_count := bc1 + 1\<rparr> = ?s3"
            using Cons.prems(3)[symmetric] by simp
          have step: "solve_backtrack_cols s ?row (c # cs) = solve_backtrack_cols ?s3 ?row cs"
            by (simp add: solve_backtrack_cols.simps safe ok place rec Nil first_result_def
                unplace s3)
          from Cons.IH[of ?s3] Cons.prems obtain bc where
            "solve_backtrack_cols ?s3 ?row cs = Inr (first_result ?s3 (concat (map ?f cs)) bc)"
            by auto
          moreover have "first_result ?s3 (concat (map ?f cs)) bc
              = first_result s (concat (map ?f (c # cs))) bc"
            using ok Nil by (simp add: first_result_cong[of ?s3 s])
          ultimately show ?thesis using step by auto
        qed
      qed
    qed
    have "solve_backtrack s ?row = solve_backtrack_cols s ?row (range_py k)"
      using lt "1.prems"(1) by (simp add: solve_backtrack.simps)
    moreover from loop[of "range_py k" s] "1.prems" obtain bc where
      "solve_backtrack_cols s ?row (range_py k)
        = Inr (first_result s (concat (map ?f (range_py k))) bc)"
      by auto
    moreover have "concat (map ?f (range_py k)) = all_sols k qs"
      using False lt by (subst (2) all_sols.simps) simp
    ultimately show ?thesis by auto
  qed
qed

section \<open>The iterative search follows the recursive one\<close>

lemma range_from_empty [simp]: "k \<le> col \<Longrightarrow> range_from col k = []"
  by (simp add: range_from_def)

lemma range_from_rec: "col < k \<Longrightarrow> range_from col k = col # range_from (col + 1) k"
  by (simp add: range_from_def upto_rec1)

lemma range_from_0: "range_from 0 k = range_py k"
  by (simp add: range_from_def range_py_def)

lemma in_range_prefix: "in_range k (qs @ ext) \<Longrightarrow> in_range k qs"
  by (auto simp: in_range_def)

lemma unwind_board_of:
  assumes "in_range k (qs @ ext)"
  shows "unwind (board_of k (qs @ ext)) (pairs_of (qs @ ext)) (int (length qs))
    = Inr (board_of k qs, pairs_of qs)"
  using assms
proof (induction ext rule: rev_induct)
  case Nil
  show ?case by (subst unwind.simps) simp
next
  case (snoc c ext)
  let ?q = "qs @ ext"
  from snoc.prems have r: "in_range k (?q @ [c])" by simp
  then have c: "int (length ?q) < k" "0 \<le> c" "c < k"
    by (auto simp: in_range_def)
  have unplace: "board_set (board_of k (qs @ ext @ [c])) (int (length ?q)) c 0
      = Inr (board_of k ?q)"
    using board_set_unplace[OF c] by simp
  have p: "pairs_of (qs @ ext @ [c]) = pairs_of ?q @ [(int (length ?q), c)]"
    using pairs_of_snoc[of ?q c] by simp
  have "unwind (board_of k (qs @ ext @ [c])) (pairs_of (qs @ ext @ [c])) (int (length qs))
      = unwind (board_of k ?q) (pairs_of ?q) (int (length qs))"
  proof -
    have gt: "int (length qs) < int (length (pairs_of (qs @ ext @ [c])))" by simp
    have ne: "pairs_of (qs @ ext @ [c]) \<noteq> []" by (simp add: p)
    have la: "last (pairs_of (qs @ ext @ [c])) = (int (length ?q), c)" by (simp add: p)
    have bl: "butlast (pairs_of (qs @ ext @ [c])) = pairs_of ?q" by (simp add: p)
    show ?thesis
      by (subst unwind.simps)
        (simp only: gt ne la bl if_True if_False prod.case unplace ebind_simps)
  qed
  also have "\<dots> = Inr (board_of k qs, pairs_of qs)"
    using in_range_prefix[OF r] by (rule snoc.IH)
  finally show ?case by simp
qed

lemma same_fields:
  assumes "self_n s' = self_n s" "solutions s' = solutions s"
    "solution_count s' = solution_count s"
  shows "s'\<lparr>board := b, backtrack_count := c\<rparr> = (s::solver)\<lparr>board := b, backtrack_count := c\<rparr>"
  using assms by (cases s, cases s') simp

lemma iter_outcome_Nil:
  "iter_outcome s qs stack [] bc
    = iterative_loop (s\<lparr>board := board_of (self_n s) qs, backtrack_count := bc\<rparr>)
        stack (pairs_of qs)"
  by (simp add: iter_outcome_def)

lemma iter_outcome_Cons:
  "iter_outcome s qs stack (sol # rest) bc
    = Some (Inr (True, s\<lparr>board := board_of (self_n s) sol, backtrack_count := bc\<rparr>))"
  by (simp add: iter_outcome_def)

lemma iter_outcome_cong:
  assumes "self_n s' = self_n s" "solutions s' = solutions s"
    "solution_count s' = solution_count s"
  shows "iter_outcome s' qs stack sols bc = iter_outcome s qs stack sols bc"
  unfolding iter_outcome_def assms(1) same_fields[OF assms] ..

lemma iterative_frame:
  assumes "self_n s = k" "board s = board_of k (qs @ ext)" "in_range k (qs @ ext)"
    "int (length qs) < k" "0 \<le> col"
  shows "\<exists>bc. iterative_loop s ((int (length qs), col) # stack) (pairs_of (qs @ ext))
    = iter_outcome s qs stack
        (concat (map (\<lambda>c. if safe qs c then all_sols k (qs @ [c]) else [])
           (range_from col k))) bc"
  using assms
proof (induction "nat (k - int (length qs))" arbitrary: qs ext s stack col rule: less_induct)
  case less
  note outer = less.hyps
  note lt = less.prems(4)
  let ?row = "int (length qs)"
  let ?f = "\<lambda>c. if safe qs c then all_sols k (qs @ [c]) else []"
  have rq: "in_range k qs" using less.prems(3) by (rule in_range_prefix)
  have "\<exists>bc. iterative_loop s ((?row, col) # stack) (pairs_of (qs @ ext))
      = iter_outcome s qs stack (concat (map ?f (range_from col k))) bc"
    if "0 \<le> col" "self_n s = k" "board s = board_of k (qs @ ext)" "in_range k (qs @ ext)"
    for col ext s
    using that
  proof (induction "nat (k - col)" arbitrary: col ext s rule: less_induct)
    case less
    note inner = less.hyps
    note n = less.prems(2) and b = less.prems(3) and r = less.prems(4) and c0 = less.prems(1)
    let ?s1 = "s\<lparr>board := board_of k qs\<rparr>"
    let ?P = "pairs_of qs"
    have U: "unwind (board s) (pairs_of (qs @ ext)) ?row = Inr (board_of k qs, ?P)"
      unfolding b using r by (rule unwind_board_of)
    have unf: "iterative_loop s ((?row, c) # stack) (pairs_of (qs @ ext))
        = (case try_columns ?s1 stack ?P ?row (range_from c k) of
             Inl e \<Rightarrow> Some (Inl e)
           | Inr (ret, found, s2, stack2, positions2) \<Rightarrow>
               (case ret of
                  Some r \<Rightarrow> Some (Inr (r, s2))
                | None \<Rightarrow>
                    iterative_loop
                      (if found then s2
                       else s2\<lparr>backtrack_count := backtrack_count s2 + 1\<rparr>)
                      stack2 positions2))" for c
      by (subst iterative_loop.simps) (simp add: U n)
    show ?case
    proof (cases "col < k")
      case False
      then have "range_from col k = []" by simp
      then have "iterative_loop s ((?row, col) # stack) (pairs_of (qs @ ext))
          = iterative_loop (?s1\<lparr>backtrack_count := backtrack_count ?s1 + 1\<rparr>) stack ?P"
        unfolding unf by simp
      moreover have conc: "concat (map ?f (range_from col k)) = []"
        using \<open>range_from col k = []\<close> by simp
      ultimately have "iterative_loop s ((?row, col) # stack) (pairs_of (qs @ ext))
          = iter_outcome s qs stack (concat (map ?f (range_from col k))) (backtrack_count s + 1)"
        unfolding conc iter_outcome_Nil by (simp add: n)
      then show ?thesis by (rule exI)
    next
      case True
      have rf: "range_from col k = col # range_from (col + 1) k"
        using True by (rule range_from_rec)
      have safe: "is_safe ?s1 ?row col = Inr (safe qs col)"
        using n rq c0 True by (intro is_safe_board_of) simp_all
      show ?thesis
      proof (cases "safe qs col")
        case unsafe: False
        have "try_columns ?s1 stack ?P ?row (range_from col k)
            = try_columns ?s1 stack ?P ?row (range_from (col + 1) k)"
          unfolding rf by (simp add: safe unsafe)
        then have "iterative_loop s ((?row, col) # stack) (pairs_of (qs @ ext))
            = iterative_loop s ((?row, col + 1) # stack) (pairs_of (qs @ ext))"
          unfolding unf by simp
        moreover from inner[of "col + 1" s ext] True c0 n b r obtain bc where
          "iterative_loop s ((?row, col + 1) # stack) (pairs_of (qs @ ext))
            = iter_outcome s qs stack (concat (map ?f (range_from (col + 1) k))) bc"
          by auto
        moreover have "concat (map ?f (range_from col k))
            = concat (map ?f (range_from (col + 1) k))"
          unfolding rf using unsafe by simp
        ultimately have "iterative_loop s ((?row, col) # stack) (pairs_of (qs @ ext))
            = iter_outcome s qs stack (concat (map ?f (range_from col k))) bc"
          by (simp only:)
        then show ?thesis by (rule exI)
      next
        case ok: True
        let ?qc = "qs @ [col]"
        let ?s2 = "s\<lparr>board := board_of k ?qc\<rparr>"
        have place: "board_set (board_of k qs) ?row col 1 = Inr (board_of k ?qc)"
          using lt c0 True by (rule board_set_place)
        have rqc: "in_range k ?qc"
          using rq lt c0 True by (rule in_range_snoc)
        have s12: "?s1\<lparr>board := board_of k ?qc\<rparr> = ?s2" by simp
        show ?thesis
        proof (cases "?row = k - 1")
          case last_row: True
          have cond: "(?row = self_n s - 1) = True"
            using last_row n by simp
          have "try_columns ?s1 stack ?P ?row (range_from col k)
              = Inr (Some True, True, ?s2, stack, ?P @ [(?row, col)])"
            unfolding rf by (simp add: safe ok place cond)
          then have "iterative_loop s ((?row, col) # stack) (pairs_of (qs @ ext))
              = Some (Inr (True, ?s2))"
            unfolding unf by simp
          moreover have "all_sols k ?qc = [?qc]"
            using last_row by (simp add: all_sols.simps[of k ?qc])
          then have conc: "concat (map ?f (range_from col k))
              = ?qc # concat (map ?f (range_from (col + 1) k))"
            unfolding rf using ok by simp
          have "s\<lparr>board := board_of k ?qc, backtrack_count := backtrack_count s\<rparr> = ?s2"
            by simp
          ultimately have "iterative_loop s ((?row, col) # stack) (pairs_of (qs @ ext))
              = iter_outcome s qs stack (concat (map ?f (range_from col k))) (backtrack_count s)"
            unfolding conc iter_outcome_Cons by (simp add: n)
          then show ?thesis by (rule exI)
        next
          case more_rows: False
          with lt have lt': "int (length ?qc) < k" by simp
          have cond: "(?row = self_n s - 1) = False"
            using more_rows n by simp
          have "try_columns ?s1 stack ?P ?row (range_from col k)
              = Inr (None, True, ?s2, (?row + 1, 0) # (?row, col + 1) # stack,
                     ?P @ [(?row, col)])"
            unfolding rf by (simp add: safe ok place cond)
          then have step: "iterative_loop s ((?row, col) # stack) (pairs_of (qs @ ext))
              = iterative_loop ?s2 ((int (length ?qc), 0) # (?row, col + 1) # stack)
                  (pairs_of (?qc @ []))"
            unfolding unf by (simp add: pairs_of_snoc add.commute)
          have "nat (k - int (length ?qc)) < nat (k - ?row)" using lt by simp
          from outer[OF this, of ?s2 "[]" 0 "(?row, col + 1) # stack"] n rqc lt'
          obtain bc1 where rec:
            "iterative_loop ?s2 ((int (length ?qc), 0) # (?row, col + 1) # stack)
                (pairs_of (?qc @ []))
              = iter_outcome ?s2 ?qc ((?row, col + 1) # stack)
                  (concat (map (\<lambda>c. if safe ?qc c then all_sols k (?qc @ [c]) else [])
                     (range_from 0 k))) bc1"
            by auto
          have sub: "concat (map (\<lambda>c. if safe ?qc c then all_sols k (?qc @ [c]) else [])
              (range_from 0 k)) = all_sols k ?qc"
            using lt' by (subst (2) all_sols.simps) (simp add: range_from_0)
          have cong: "iter_outcome ?s2 ?qc ((?row, col + 1) # stack) (all_sols k ?qc) bc1
              = iter_outcome s ?qc ((?row, col + 1) # stack) (all_sols k ?qc) bc1"
            by (rule iter_outcome_cong) simp_all
          show ?thesis
          proof (cases "all_sols k ?qc")
            case (Cons sol rest)
            then have conc: "concat (map ?f (range_from col k))
                = sol # rest @ concat (map ?f (range_from (col + 1) k))"
              unfolding rf using ok by simp
            have "iterative_loop s ((?row, col) # stack) (pairs_of (qs @ ext))
                = Some (Inr (True, s\<lparr>board := board_of k sol, backtrack_count := bc1\<rparr>))"
              unfolding step rec sub cong Cons iter_outcome_Cons by (simp add: n)
            then have "iterative_loop s ((?row, col) # stack) (pairs_of (qs @ ext))
                = iter_outcome s qs stack (concat (map ?f (range_from col k))) bc1"
              unfolding conc iter_outcome_Cons by (simp add: n)
            then show ?thesis by (rule exI)
          next
            case Nil
            let ?s3 = "s\<lparr>board := board_of k ?qc, backtrack_count := bc1\<rparr>"
            have "iterative_loop s ((?row, col) # stack) (pairs_of (qs @ ext))
                = iterative_loop ?s3 ((?row, col + 1) # stack) (pairs_of ?qc)"
              unfolding step rec sub cong Nil iter_outcome_Nil by (simp add: n)
            moreover from inner[of "col + 1" ?s3 "[col]"] True c0 n rqc obtain bc where
              "iterative_loop ?s3 ((?row, col + 1) # stack) (pairs_of ?qc)
                = iter_outcome ?s3 qs stack (concat (map ?f (range_from (col + 1) k))) bc"
              by auto
            moreover have "iter_outcome ?s3 qs stack (concat (map ?f (range_from (col + 1) k))) bc
                = iter_outcome s qs stack (concat (map ?f (range_from (col + 1) k))) bc"
              by (rule iter_outcome_cong) simp_all
            moreover have "concat (map ?f (range_from col k))
                = concat (map ?f (range_from (col + 1) k))"
              unfolding rf using ok Nil by simp
            ultimately have "iterative_loop s ((?row, col) # stack) (pairs_of (qs @ ext))
                = iter_outcome s qs stack (concat (map ?f (range_from col k))) bc"
              by (simp only:)
            then show ?thesis by (rule exI)
          qed
        qed
      qed
    qed
  qed
  from this[OF less.prems(5,1,2,3)] show ?case .
qed

lemma first_level_sols:
  "0 < k \<Longrightarrow>
   concat (map (\<lambda>c. if safe [] c then all_sols k ([] @ [c]) else []) (range_from 0 k))
     = all_sols k []"
  by (subst (2) all_sols.simps) (simp add: range_from_0)

lemma solve_iterative_refines:
  assumes "0 < k"
  shows "\<exists>bc. solve_iterative (fresh k) = Some (Inr (first_result (fresh k) (all_sols k []) bc))"
proof -
  from iterative_frame[of "fresh k" k "[]" "[]" 0 "[]"] assms obtain bc where
    "iterative_loop (fresh k) [(0, 0)] []
      = iter_outcome (fresh k) [] [] (all_sols k []) bc"
    by (auto simp: board_fresh_of first_level_sols)
  moreover have "solve_iterative (fresh k) = iterative_loop (fresh k) [(0, 0)] []"
    using assms by (simp add: solve_iterative_def)
  moreover have "iter_outcome (fresh k) [] [] (all_sols k []) bc
      = Some (Inr (first_result (fresh k) (all_sols k []) bc))"
  proof (cases "all_sols k []")
    case Nil
    have "(fresh k)\<lparr>board := board_of k [], backtrack_count := bc\<rparr>
        = (fresh k)\<lparr>backtrack_count := bc\<rparr>"
      using board_fresh_of[of k, symmetric] by simp
    then show ?thesis
      unfolding Nil iter_outcome_Nil
      by (subst iterative_loop.simps) (simp add: first_result_def)
  next
    case (Cons sol rest)
    then show ?thesis
      by (simp add: iter_outcome_Cons first_result_def)
  qed
  ultimately show ?thesis by auto
qed

lemma solve_backtrack_fresh:
  assumes "0 \<le> k"
  shows "\<exists>bc. solve_backtrack (fresh k) 0 = Inr (first_result (fresh k) (all_sols k []) bc)"
  using solve_backtrack_refines[of "fresh k" k "[]"] assms
  by (simp add: board_fresh_of)

lemma board_first_result:
  "board (snd (first_result s sols bc)) = board (snd (first_result s sols bc'))"
  by (simp add: first_result_def split: list.splits)

lemma fst_first_result:
  "fst (first_result s sols bc) = (sols \<noteq> [])"
  by (simp add: first_result_def split: list.splits)

text \<open>
  C3: for every positive board size, the recursive and the iterative first-solution
  search, each on a fresh solver, both return (no exception, no endless loop), return the
  same boolean, and leave the same board.
\<close>

theorem iterative_agrees_with_recursive:
  assumes "0 < k"
  shows "\<exists>r s1 s2. solve_backtrack (fresh k) 0 = Inr (r, s1)
    \<and> solve_iterative (fresh k) = Some (Inr (r, s2))
    \<and> board s1 = board s2"
proof -
  from solve_backtrack_fresh[of k] assms obtain bc1 where
    b: "solve_backtrack (fresh k) 0 = Inr (first_result (fresh k) (all_sols k []) bc1)"
    by auto
  from solve_iterative_refines[OF assms] obtain bc2 where
    i: "solve_iterative (fresh k) = Some (Inr (first_result (fresh k) (all_sols k []) bc2))"
    by auto
  let ?r1 = "first_result (fresh k) (all_sols k []) bc1"
  let ?r2 = "first_result (fresh k) (all_sols k []) bc2"
  have "solve_backtrack (fresh k) 0 = Inr (fst ?r1, snd ?r1)"
    using b by simp
  moreover have "solve_iterative (fresh k) = Some (Inr (fst ?r1, snd ?r2))"
    using i by (simp add: fst_first_result prod_eq_iff)
  moreover have "board (snd ?r1) = board (snd ?r2)"
    by (rule board_first_result)
  ultimately show ?thesis by blast
qed

lemma solve_backtrack_4:
  "solve_backtrack (fresh 4) 0 =
     Inr (True, \<lparr> self_n = 4,
                  board = [[0, 1, 0, 0], [0, 0, 0, 1], [1, 0, 0, 0], [0, 0, 1, 0]],
                  solutions = [], solution_count = 0, backtrack_count = 4 \<rparr>)"
  by code_simp

theorem iterative_agrees_with_recursive_witness:
  "(0::int) < 4 \<and>
   (\<exists>s1 s2. solve_backtrack (fresh 4) 0 = Inr (True, s1)
      \<and> solve_iterative (fresh 4) = Some (Inr (True, s2))
      \<and> board s1 = [[0, 1, 0, 0], [0, 0, 0, 1], [1, 0, 0, 0], [0, 0, 1, 0]]
      \<and> board s2 = [[0, 1, 0, 0], [0, 0, 0, 1], [1, 0, 0, 0], [0, 0, 1, 0]])"
proof -
  have pos: "(0::int) < 4" by simp
  from iterative_agrees_with_recursive[OF pos] obtain r s1 s2 where
    "solve_backtrack (fresh 4) 0 = Inr (r, s1)"
    "solve_iterative (fresh 4) = Some (Inr (r, s2))" "board s1 = board s2"
    by blast
  then show ?thesis
    by (auto simp: solve_backtrack_4)
qed

section \<open>A solution for every board size but 2 and 3\<close>

lemma plain_core:
  fixes h i j k :: int
  assumes k: "k = 2 * h \<or> k = 2 * h + 1" and three: "(2 * h + 1) mod 3 \<noteq> 0"
    and ij: "0 \<le> i" "i < j" "j < k"
    and q: "\<And>x. q x = (if x < h then 2 * x + 1 else 2 * (x - h))"
  shows "q i \<noteq> q j \<and> i - q i \<noteq> j - q j \<and> i + q i \<noteq> j + q j
    \<and> 0 \<le> q i \<and> q i < k \<and> 0 \<le> q j \<and> q j < k"
proof -
  consider (low) "j < h" | (mixed) "i < h" "h \<le> j" | (high) "h \<le> i"
    using ij by linarith
  then show ?thesis
  proof cases
    case low
    then have "q i = 2 * i + 1" "q j = 2 * j + 1" using ij by (simp_all add: q)
    with low ij k show ?thesis by auto
  next
    case high
    then have "q i = 2 * (i - h)" "q j = 2 * (j - h)" using ij by (simp_all add: q)
    with high ij k show ?thesis by auto
  next
    case mixed
    then have e: "q i = 2 * i + 1" "q j = 2 * (j - h)" by (simp_all add: q)
    have "2 * i + 1 \<noteq> 2 * (j - h)" by presburger
    moreover have "i + (2 * i + 1) \<noteq> j + 2 * (j - h)"
      using three by presburger
    ultimately show ?thesis
      unfolding e using mixed ij k by auto
  qed
qed

lemma rem2_core:
  fixes h i j k m :: int
  assumes k: "k = 2 * h" and h: "h = 3 * m + 4" "0 \<le> m"
    and ij: "0 \<le> i" "i < j" "j < k"
    and q: "\<And>x. q x = (if x < h then 2 * x + 1 else if x = h then 2
        else if x = h + 1 then 0 else if x = k - 1 then 4 else 2 * (x - h) + 2)"
  shows "q i \<noteq> q j \<and> i - q i \<noteq> j - q j \<and> i + q i \<noteq> j + q j
    \<and> 0 \<le> q i \<and> q i < k \<and> 0 \<le> q j \<and> q j < k"
proof -
  have ri: "i < h \<or> i = h \<or> i = h + 1 \<or> (h + 2 \<le> i \<and> i \<le> 2 * h - 2) \<or> i = 2 * h - 1"
    using ij k by linarith
  have rj: "j < h \<or> j = h \<or> j = h + 1 \<or> (h + 2 \<le> j \<and> j \<le> 2 * h - 2) \<or> j = 2 * h - 1"
    using ij k by linarith
  have L: "X < h \<Longrightarrow> q X = 2 * X + 1" for X
    using h by (simp add: q k)
  have P: "X = h \<Longrightarrow> q X = 2" for X
    using h by (simp add: q k)
  have Q: "X = h + 1 \<Longrightarrow> q X = 0" for X
    using h by (simp add: q k)
  have M: "h + 2 \<le> X \<Longrightarrow> X \<le> 2 * h - 2 \<Longrightarrow> q X = 2 * (X - h) + 2" for X
    using h by (simp add: q k)
  have Z: "X = 2 * h - 1 \<Longrightarrow> q X = 4" for X
    using h by (simp add: q k)
  from ri rj show ?thesis
  proof (elim disjE conjE)
    assume a: "i < h" "j < h"
    have e: "q i = 2 * i + 1" "q j = 2 * j + 1"
      using a by (simp_all add: L L)
    show ?thesis
      unfolding e using a ij k h by (simp; presburger)
  next
    assume a: "i < h" "j = h"
    have e: "q i = 2 * i + 1" "q j = 2"
      using a by (simp_all add: L P)
    show ?thesis
      unfolding e using a ij k h by (simp; presburger)
  next
    assume a: "i < h" "j = h + 1"
    have e: "q i = 2 * i + 1" "q j = 0"
      using a by (simp_all add: L Q)
    show ?thesis
      unfolding e using a ij k h by (simp; presburger)
  next
    assume a: "i < h" "h + 2 \<le> j" "j \<le> 2 * h - 2"
    have e: "q i = 2 * i + 1" "q j = 2 * (j - h) + 2"
      using a by (simp_all add: L M)
    show ?thesis
      unfolding e using a ij k h by (simp; presburger)
  next
    assume a: "i < h" "j = 2 * h - 1"
    have e: "q i = 2 * i + 1" "q j = 4"
      using a by (simp_all add: L Z)
    show ?thesis
      unfolding e using a ij k h by (simp; presburger)
  next
    assume a: "i = h" "j = h + 1"
    have e: "q i = 2" "q j = 0"
      using a by (simp_all add: P Q)
    show ?thesis
      unfolding e using a ij k h by (simp; presburger)
  next
    assume a: "i = h" "h + 2 \<le> j" "j \<le> 2 * h - 2"
    have e: "q i = 2" "q j = 2 * (j - h) + 2"
      using a by (simp_all add: P M)
    show ?thesis
      unfolding e using a ij k h by (simp; presburger)
  next
    assume a: "i = h" "j = 2 * h - 1"
    have e: "q i = 2" "q j = 4"
      using a by (simp_all add: P Z)
    show ?thesis
      unfolding e using a ij k h by (simp; presburger)
  next
    assume a: "i = h + 1" "h + 2 \<le> j" "j \<le> 2 * h - 2"
    have e: "q i = 0" "q j = 2 * (j - h) + 2"
      using a by (simp_all add: Q M)
    show ?thesis
      unfolding e using a ij k h by (simp; presburger)
  next
    assume a: "i = h + 1" "j = 2 * h - 1"
    have e: "q i = 0" "q j = 4"
      using a by (simp_all add: Q Z)
    show ?thesis
      unfolding e using a ij k h by (simp; presburger)
  next
    assume a: "h + 2 \<le> i" "i \<le> 2 * h - 2" "h + 2 \<le> j" "j \<le> 2 * h - 2"
    have e: "q i = 2 * (i - h) + 2" "q j = 2 * (j - h) + 2"
      using a by (simp_all add: M M)
    show ?thesis
      unfolding e using a ij k h by (simp; presburger)
  next
    assume a: "h + 2 \<le> i" "i \<le> 2 * h - 2" "j = 2 * h - 1"
    have e: "q i = 2 * (i - h) + 2" "q j = 4"
      using a by (simp_all add: M Z)
    show ?thesis
      unfolding e using a ij k h by (simp; presburger)
  qed (use ij h in linarith)+
qed

lemma rem3_core:
  fixes h i j k m :: int
  assumes k: "k = 2 * h + 1" and h: "h = 3 * m + 4" "0 \<le> m"
    and ij: "0 \<le> i" "i < j" "j < k"
    and q: "\<And>x. q x = (if x < h - 1 then 2 * x + 3 else if x = h - 1 then 1
        else if x = k - 2 then 0 else if x = k - 1 then 2 else 2 * (x - h) + 4)"
  shows "q i \<noteq> q j \<and> i - q i \<noteq> j - q j \<and> i + q i \<noteq> j + q j
    \<and> 0 \<le> q i \<and> q i < k \<and> 0 \<le> q j \<and> q j < k"
proof -
  have ri: "i < h - 1 \<or> i = h - 1 \<or> (h \<le> i \<and> i \<le> 2 * h - 2) \<or> i = 2 * h - 1 \<or> i = 2 * h"
    using ij k by linarith
  have rj: "j < h - 1 \<or> j = h - 1 \<or> (h \<le> j \<and> j \<le> 2 * h - 2) \<or> j = 2 * h - 1 \<or> j = 2 * h"
    using ij k by linarith
  have L: "X < h - 1 \<Longrightarrow> q X = 2 * X + 3" for X
    using h by (simp add: q k)
  have P: "X = h - 1 \<Longrightarrow> q X = 1" for X
    using h by (simp add: q k)
  have M: "h \<le> X \<Longrightarrow> X \<le> 2 * h - 2 \<Longrightarrow> q X = 2 * (X - h) + 4" for X
    using h by (simp add: q k)
  have Y: "X = 2 * h - 1 \<Longrightarrow> q X = 0" for X
    using h by (simp add: q k)
  have Z: "X = 2 * h \<Longrightarrow> q X = 2" for X
    using h by (simp add: q k)
  from ri rj show ?thesis
  proof (elim disjE conjE)
    assume a: "i < h - 1" "j < h - 1"
    have e: "q i = 2 * i + 3" "q j = 2 * j + 3"
      using a by (simp_all add: L L)
    show ?thesis
      unfolding e using a ij k h by (simp; presburger)
  next
    assume a: "i < h - 1" "j = h - 1"
    have e: "q i = 2 * i + 3" "q j = 1"
      using a by (simp_all add: L P)
    show ?thesis
      unfolding e using a ij k h by (simp; presburger)
  next
    assume a: "i < h - 1" "h \<le> j" "j \<le> 2 * h - 2"
    have e: "q i = 2 * i + 3" "q j = 2 * (j - h) + 4"
      using a by (simp_all add: L M)
    show ?thesis
      unfolding e using a ij k h by (simp; presburger)
  next
    assume a: "i < h - 1" "j = 2 * h - 1"
    have e: "q i = 2 * i + 3" "q j = 0"
      using a by (simp_all add: L Y)
    show ?thesis
      unfolding e using a ij k h by (simp; presburger)
  next
    assume a: "i < h - 1" "j = 2 * h"
    have e: "q i = 2 * i + 3" "q j = 2"
      using a by (simp_all add: L Z)
    show ?thesis
      unfolding e using a ij k h by (simp; presburger)
  next
    assume a: "i = h - 1" "h \<le> j" "j \<le> 2 * h - 2"
    have e: "q i = 1" "q j = 2 * (j - h) + 4"
      using a by (simp_all add: P M)
    show ?thesis
      unfolding e using a ij k h by (simp; presburger)
  next
    assume a: "i = h - 1" "j = 2 * h - 1"
    have e: "q i = 1" "q j = 0"
      using a by (simp_all add: P Y)
    show ?thesis
      unfolding e using a ij k h by (simp; presburger)
  next
    assume a: "i = h - 1" "j = 2 * h"
    have e: "q i = 1" "q j = 2"
      using a by (simp_all add: P Z)
    show ?thesis
      unfolding e using a ij k h by (simp; presburger)
  next
    assume a: "h \<le> i" "i \<le> 2 * h - 2" "h \<le> j" "j \<le> 2 * h - 2"
    have e: "q i = 2 * (i - h) + 4" "q j = 2 * (j - h) + 4"
      using a by (simp_all add: M M)
    show ?thesis
      unfolding e using a ij k h by (simp; presburger)
  next
    assume a: "h \<le> i" "i \<le> 2 * h - 2" "j = 2 * h - 1"
    have e: "q i = 2 * (i - h) + 4" "q j = 0"
      using a by (simp_all add: M Y)
    show ?thesis
      unfolding e using a ij k h by (simp; presburger)
  next
    assume a: "h \<le> i" "i \<le> 2 * h - 2" "j = 2 * h"
    have e: "q i = 2 * (i - h) + 4" "q j = 2"
      using a by (simp_all add: M Z)
    show ?thesis
      unfolding e using a ij k h by (simp; presburger)
  next
    assume a: "i = 2 * h - 1" "j = 2 * h"
    have e: "q i = 0" "q j = 2"
      using a by (simp_all add: Y Z)
    show ?thesis
      unfolding e using a ij k h by (simp; presburger)
  qed (use ij h in linarith)+
qed

lemma queen_col_ok:
  assumes "0 < k" "k \<noteq> 2" "k \<noteq> 3" "0 \<le> i" "i < j" "j < k"
  shows "queen_col k i \<noteq> queen_col k j
    \<and> i - queen_col k i \<noteq> j - queen_col k j
    \<and> i + queen_col k i \<noteq> j + queen_col k j
    \<and> 0 \<le> queen_col k i \<and> queen_col k i < k
    \<and> 0 \<le> queen_col k j \<and> queen_col k j < k"
proof -
  consider (two) "k mod 6 = 2" | (three) "k mod 6 = 3" | (plain) "k mod 6 \<noteq> 2" "k mod 6 \<noteq> 3"
    by blast
  then show ?thesis
  proof cases
    case two
    with assms(1,2) have "\<exists>m. k = 6 * m + 8 \<and> 0 \<le> m" by presburger
    then obtain m where m: "k = 6 * m + 8" "0 \<le> m" by blast
    then have h: "k div 2 = 3 * m + 4" "k = 2 * (3 * m + 4)" by simp_all
    show ?thesis
      by (rule rem2_core[OF h(2) refl m(2) assms(4-6)])
        (simp add: queen_col_def Let_def two h(1))
  next
    case three
    with assms(1,3) have "\<exists>m. k = 6 * m + 9 \<and> 0 \<le> m" by presburger
    then obtain m where m: "k = 6 * m + 9" "0 \<le> m" by blast
    then have h: "k div 2 = 3 * m + 4" "k = 2 * (3 * m + 4) + 1" by simp_all
    show ?thesis
      by (rule rem3_core[OF h(2) refl m(2) assms(4-6)])
        (simp add: queen_col_def Let_def three h(1))
  next
    case plain
    have k: "k = 2 * (k div 2) \<or> k = 2 * (k div 2) + 1" by presburger
    have t: "(2 * (k div 2) + 1) mod 3 \<noteq> 0" using plain by presburger
    show ?thesis
      by (rule plain_core[OF k t assms(4-6)])
        (simp add: queen_col_def Let_def plain)
  qed
qed

lemma distinct_less_nth:
  "distinct xs \<longleftrightarrow> (\<forall>i j. i < j \<and> j < length xs \<longrightarrow> xs ! i \<noteq> xs ! j)"
proof
  assume "distinct xs"
  then show "\<forall>i j. i < j \<and> j < length xs \<longrightarrow> xs ! i \<noteq> xs ! j"
    by (auto simp: distinct_conv_nth)
next
  assume a: "\<forall>i j. i < j \<and> j < length xs \<longrightarrow> xs ! i \<noteq> xs ! j"
  show "distinct xs"
    unfolding distinct_conv_nth
  proof (intro allI impI)
    fix i j assume "i < length xs" "j < length xs" "i \<noteq> j"
    then consider "i < j" | "j < i" by linarith
    then show "xs ! i \<noteq> xs ! j"
      using a \<open>i < length xs\<close> \<open>j < length xs\<close> by cases (metis)+
  qed
qed

lemma consistent_iff:
  "consistent qs \<longleftrightarrow>
     (\<forall>i j. i < j \<and> j < length qs \<longrightarrow>
        qs ! i \<noteq> qs ! j \<and> int i - qs ! i \<noteq> int j - qs ! j \<and> int i + qs ! i \<noteq> int j + qs ! j)"
proof -
  have 1: "distinct (map (\<lambda>(r, c). r - c) (pairs_of qs)) \<longleftrightarrow>
      (\<forall>i j. i < j \<and> j < length qs \<longrightarrow> int i - qs ! i \<noteq> int j - qs ! j)"
    unfolding distinct_less_nth by simp
  have 2: "distinct (map (\<lambda>(r, c). r + c) (pairs_of qs)) \<longleftrightarrow>
      (\<forall>i j. i < j \<and> j < length qs \<longrightarrow> int i + qs ! i \<noteq> int j + qs ! j)"
    unfolding distinct_less_nth by simp
  show ?thesis
    unfolding consistent_def 1 2 distinct_less_nth[of qs] by blast
qed

lemma explicit_solution_ok:
  assumes "0 < k" "k \<noteq> 2" "k \<noteq> 3"
  shows "int (length (explicit_solution k)) = k"
    and "in_range k (explicit_solution k)"
    and "consistent (explicit_solution k)"
proof -
  show len: "int (length (explicit_solution k)) = k"
    using assms(1) by (simp add: explicit_solution_def)
  have bound: "0 \<le> queen_col k (int i) \<and> queen_col k (int i) < k" if "i < nat k" for i
  proof (cases "k = 1")
    case True
    with that show ?thesis by (simp add: queen_col_def)
  next
    case False
    with assms have k4: "4 \<le> k" by linarith
    show ?thesis
    proof (cases "int i + 1 < k")
      case True
      from queen_col_ok[OF assms, of "int i" "int i + 1"] True show ?thesis by simp
    next
      case False
      with that k4 have "0 \<le> int i - 1" "int i - 1 < int i" "int i < k" by linarith+
      from queen_col_ok[OF assms this] show ?thesis by simp
    qed
  qed
  then show "in_range k (explicit_solution k)"
    using len by (auto simp: in_range_def explicit_solution_def)
  show "consistent (explicit_solution k)"
    unfolding consistent_iff
  proof (intro allI impI)
    fix i j assume "i < j \<and> j < length (explicit_solution k)"
    then have ij: "0 \<le> int i" "int i < int j" "int j < k" "i < nat k" "j < nat k"
      by (auto simp: explicit_solution_def)
    from queen_col_ok[OF assms ij(1-3)] ij(4,5)
    show "explicit_solution k ! i \<noteq> explicit_solution k ! j
      \<and> int i - explicit_solution k ! i \<noteq> int j - explicit_solution k ! j
      \<and> int i + explicit_solution k ! i \<noteq> int j + explicit_solution k ! j"
      by (simp add: explicit_solution_def)
  qed
qed

section \<open>The enumeration is complete\<close>

lemma consistent_prefix: "consistent (xs @ ys) \<Longrightarrow> consistent xs"
proof (induction ys rule: rev_induct)
  case Nil
  then show ?case by simp
next
  case (snoc y ys)
  from snoc.prems have "consistent ((xs @ ys) @ [y])" by simp
  then have "consistent (xs @ ys)" by (simp only: consistent_snoc)
  then show ?case by (rule snoc.IH)
qed

lemma all_sols_complete:
  "int (length sol) = k \<Longrightarrow> in_range k sol \<Longrightarrow> consistent sol \<Longrightarrow>
     take (length qs) sol = qs \<Longrightarrow> sol \<in> set (all_sols k qs)"
proof (induction k qs rule: all_sols.induct)
  case (1 k qs)
  let ?n = "length qs"
  have "length (take ?n sol) = ?n" using "1.prems"(4) by simp
  then have le: "?n \<le> length sol" by simp
  show ?case
  proof (cases "int ?n = k")
    case True
    with "1.prems"(1) le have "take ?n sol = sol" by simp
    with "1.prems"(4) True show ?thesis by (simp add: all_sols.simps[of k qs])
  next
    case False
    with "1.prems"(1) le have lt: "?n < length sol" by linarith
    let ?c = "sol ! ?n"
    have t: "take (Suc ?n) sol = qs @ [?c]"
      using lt "1.prems"(4) by (simp add: take_Suc_conv_app_nth)
    have c: "?c \<in> set (range_py k)"
      using in_range_nth[OF "1.prems"(2) lt] by simp
    have "consistent (take (Suc ?n) sol @ drop (Suc ?n) sol)"
      using "1.prems"(3) by simp
    then have "consistent (qs @ [?c])"
      unfolding t by (rule consistent_prefix)
    then have safe: "safe qs ?c" by (simp add: consistent_snoc)
    have ngt: "\<not> k < int ?n" using lt "1.prems"(1) by simp
    have "take (length (qs @ [?c])) sol = qs @ [?c]" using t by simp
    from "1.IH"[OF False ngt c safe "1.prems"(1-3) this]
    have "sol \<in> set (all_sols k (qs @ [?c]))" .
    with c safe False ngt show ?thesis
      by (subst all_sols.simps) auto
  qed
qed

lemma all_sols_in_range:
  "sol \<in> set (all_sols k qs) \<Longrightarrow> in_range k qs \<Longrightarrow> in_range k sol"
proof (induction k qs rule: all_sols.induct)
  case (1 k qs)
  show ?case
  proof (cases "int (length qs) = k")
    case True
    with "1.prems" show ?thesis by (simp add: all_sols.simps[of k qs])
  next
    case False
    with "1.prems" obtain c where c: "c \<in> set (range_py k)" "safe qs c"
      "\<not> int (length qs) > k" "sol \<in> set (all_sols k (qs @ [c]))"
      by (auto simp: all_sols.simps[of k qs] split: if_splits)
    from c(1,3) False "1.prems"(2) have "in_range k (qs @ [c])"
      by (intro in_range_snoc) auto
    from "1.IH"[OF False c(3) c(1,2,4) this] show ?thesis .
  qed
qed

section \<open>Solutions of the N-Queens problem\<close>

lemma distinct_pairs_of: "distinct (pairs_of qs)"
proof -
  have "distinct (map fst (pairs_of qs))" by (simp add: distinct_map inj_on_def)
  then show ?thesis by (rule distinct_map[THEN iffD1, THEN conjunct1])
qed

lemma placement_solution:
  assumes "int (length qs) = k" "in_range k qs" "consistent qs"
  shows "nqueens_solution k (set (pairs_of qs))"
  unfolding nqueens_solution_def
proof (intro conjI ballI impI)
  show "finite (set (pairs_of qs))" by simp
  show "int (card (set (pairs_of qs))) = k"
    using assms(1) by (simp add: distinct_card[OF distinct_pairs_of])
next
  fix p assume "p \<in> set (pairs_of qs)"
  then obtain i where i: "i < length qs" "p = (int i, qs ! i)"
    by (auto simp: set_pairs_of)
  from in_range_nth[OF assms(2) i(1)] i assms(1)
  show "0 \<le> fst p" "fst p < k" "0 \<le> snd p" "snd p < k" by auto
next
  fix p q assume "p \<in> set (pairs_of qs)" "q \<in> set (pairs_of qs)" "p \<noteq> q"
  then obtain i j where ij: "i < length qs" "p = (int i, qs ! i)"
    "j < length qs" "q = (int j, qs ! j)" "i \<noteq> j"
    by (auto simp: set_pairs_of)
  then consider "i < j" | "j < i" by linarith
  then show "\<not> attacks p q"
  proof cases
    case 1
    with assms(3) ij(3) have "qs ! i \<noteq> qs ! j \<and> int i - qs ! i \<noteq> int j - qs ! j
      \<and> int i + qs ! i \<noteq> int j + qs ! j"
      unfolding consistent_iff by blast
    with ij show ?thesis by (simp add: attacks_def)
  next
    case 2
    with assms(3) ij(1) have "qs ! j \<noteq> qs ! i \<and> int j - qs ! j \<noteq> int i - qs ! i
      \<and> int j + qs ! j \<noteq> int i + qs ! i"
      unfolding consistent_iff by blast
    with ij show ?thesis by (auto simp: attacks_def)
  qed
qed

lemma solution_placement:
  assumes "nqueens_solution k Q"
  shows "\<exists>qs. int (length qs) = k \<and> in_range k qs \<and> consistent qs"
proof -
  from assms have True: "0 \<le> k" by (auto simp: nqueens_solution_def)
  from assms have fin: "finite Q" and card: "card Q = nat k"
    and bnd: "\<And>p. p \<in> Q \<Longrightarrow> 0 \<le> fst p \<and> fst p < k \<and> 0 \<le> snd p \<and> snd p < k"
    and na: "\<And>p q. p \<in> Q \<Longrightarrow> q \<in> Q \<Longrightarrow> p \<noteq> q \<Longrightarrow> \<not> attacks p q"
    by (auto simp: nqueens_solution_def)
  have inj: "inj_on fst Q"
  proof (rule inj_onI)
    fix p q assume "p \<in> Q" "q \<in> Q" "fst p = fst q"
    then show "p = q" using na[of p q] by (auto simp: attacks_def)
  qed
  have "fst ` Q \<subseteq> {0..k - 1}" using bnd by auto
  moreover have "card (fst ` Q) = card {0..k - 1}"
    using card_image[OF inj] card True by simp
  ultimately have rows: "fst ` Q = {0..k - 1}"
    by (intro card_subset_eq) simp_all
  define col where "col i = (SOME c. (int i, c) \<in> Q)" for i
  have inQ: "(int i, col i) \<in> Q" if "i < nat k" for i
  proof -
    from that have "int i \<in> fst ` Q" unfolding rows by auto
    then have "\<exists>c. (int i, c) \<in> Q" by force
    then show ?thesis unfolding col_def by (rule someI_ex)
  qed
  define qs where "qs = map col [0..<nat k]"
  have len: "length qs = nat k" by (simp add: qs_def)
  have nth: "qs ! i = col i" if "i < nat k" for i using that by (simp add: qs_def)
  have "int (length qs) = k" using len True by simp
  moreover have "in_range k qs"
    unfolding in_range_def
  proof (intro conjI subsetI)
    show "int (length qs) \<le> k" using len True by simp
    fix c assume "c \<in> set qs"
    then obtain i where "i < nat k" "c = col i" by (auto simp: qs_def)
    with bnd[OF inQ[of i]] show "c \<in> {0..k - 1}" by simp
  qed
  moreover have "consistent qs"
    unfolding consistent_iff
  proof (intro allI impI)
    fix i j assume "i < j \<and> j < length qs"
    then have ij: "i < nat k" "j < nat k" "i \<noteq> j" using len by auto
    from na[OF inQ[OF ij(1)] inQ[OF ij(2)]] ij(3)
    have "\<not> attacks (int i, col i) (int j, col j)" by simp
    then show "qs ! i \<noteq> qs ! j \<and> int i - qs ! i \<noteq> int j - qs ! j
      \<and> int i + qs ! i \<noteq> int j + qs ! j"
      using ij by (simp add: attacks_def nth)
  qed
  ultimately show ?thesis by blast
qed

section \<open>First-solution search decides the problem\<close>

lemma no_placement_2: "all_sols 2 [] = []"
  by code_simp

lemma no_placement_3: "all_sols 3 [] = []"
  by code_simp

lemma placement_1: "all_sols 1 [] = [[0]]"
  by code_simp

lemma enumeration_empty_iff:
  assumes "0 \<le> k"
  shows "all_sols k [] = [] \<longleftrightarrow> \<not> (\<exists>Q. nqueens_solution k Q)"
proof
  assume e: "all_sols k [] = []"
  show "\<not> (\<exists>Q. nqueens_solution k Q)"
  proof
    assume "\<exists>Q. nqueens_solution k Q"
    then obtain Q where "nqueens_solution k Q" ..
    from solution_placement[OF this] obtain qs where
      "int (length qs) = k" "in_range k qs" "consistent qs" by blast
    then have "qs \<in> set (all_sols k [])"
      by (rule all_sols_complete) simp
    with e show False by simp
  qed
next
  assume n: "\<not> (\<exists>Q. nqueens_solution k Q)"
  show "all_sols k [] = []"
  proof (rule ccontr)
    assume "all_sols k [] \<noteq> []"
    then obtain sol where sol: "sol \<in> set (all_sols k [])"
      by (cases "all_sols k []") auto
    have "int (length sol) = k" using all_sols_extends[OF sol] by simp
    moreover have "in_range k sol" using all_sols_in_range[OF sol] assms by simp
    moreover have "consistent sol" using all_sols_consistent[OF sol] by simp
    ultimately have "nqueens_solution k (set (pairs_of sol))"
      by (rule placement_solution)
    with n show False by blast
  qed
qed

lemma solvable_iff:
  assumes "0 < k"
  shows "(\<exists>Q. nqueens_solution k Q) \<longleftrightarrow> k \<noteq> 2 \<and> k \<noteq> 3"
proof
  assume "\<exists>Q. nqueens_solution k Q"
  then have "all_sols k [] \<noteq> []"
    using enumeration_empty_iff[of k] assms by simp
  then show "k \<noteq> 2 \<and> k \<noteq> 3"
    using no_placement_2 no_placement_3 by auto
next
  assume "k \<noteq> 2 \<and> k \<noteq> 3"
  then have "nqueens_solution k (set (pairs_of (explicit_solution k)))"
    using assms by (intro placement_solution explicit_solution_ok) simp_all
  then show "\<exists>Q. nqueens_solution k Q" ..
qed

text \<open>
  C1: for every positive board size \<open>k\<close>, \<open>solve_backtrack()\<close> on a fresh solver returns
  False exactly when the N-Queens problem of size \<open>k\<close> has no solution, which is the case
  exactly for \<open>k = 2\<close> and \<open>k = 3\<close>; for every other \<open>k\<close> it returns True and leaves on
  the board a solution of the problem (which \<open>validate_solution\<close> accepts), and for
  \<open>k = 1\<close> that solution is the single square \<open>(0, 0)\<close>. No call raises.
\<close>

theorem first_solution_search:
  assumes "0 < k"
  shows "((\<exists>s'. solve_backtrack (fresh k) 0 = Inr (False, s'))
            \<longleftrightarrow> \<not> (\<exists>Q. nqueens_solution k Q))
    \<and> (\<not> (\<exists>Q. nqueens_solution k Q) \<longleftrightarrow> k = 2 \<or> k = 3)
    \<and> (k \<noteq> 2 \<and> k \<noteq> 3 \<longrightarrow>
         (\<exists>s' sol. solve_backtrack (fresh k) 0 = Inr (True, s')
            \<and> collect_solution s' = Inr sol
            \<and> nqueens_solution k (set sol)
            \<and> validate_solution s' sol))
    \<and> (k = 1 \<longrightarrow>
         (\<exists>s'. solve_backtrack (fresh k) 0 = Inr (True, s')
            \<and> collect_solution s' = Inr [(0, 0)]))"
proof -
  from solve_backtrack_fresh[of k] assms obtain bc where
    b: "solve_backtrack (fresh k) 0 = Inr (first_result (fresh k) (all_sols k []) bc)"
    by auto
  have fails: "(\<exists>s'. solve_backtrack (fresh k) 0 = Inr (False, s')) \<longleftrightarrow> all_sols k [] = []"
    unfolding b by (auto simp: first_result_def split: list.splits)
  have e: "all_sols k [] = [] \<longleftrightarrow> \<not> (\<exists>Q. nqueens_solution k Q)"
    using assms by (intro enumeration_empty_iff) simp
  have s: "(\<exists>Q. nqueens_solution k Q) \<longleftrightarrow> k \<noteq> 2 \<and> k \<noteq> 3"
    using assms by (rule solvable_iff)
  have found: "\<exists>s'. solve_backtrack (fresh k) 0 = Inr (True, s')
      \<and> collect_solution s' = Inr (pairs_of sol)
      \<and> nqueens_solution k (set (pairs_of sol))
      \<and> validate_solution s' (pairs_of sol)"
    if c: "all_sols k [] = sol # rest" for sol rest
  proof -
    let ?s' = "(fresh k)\<lparr>board := board_of k sol, backtrack_count := bc\<rparr>"
    have sol: "sol \<in> set (all_sols k [])" using c by simp
    have len: "int (length sol) = k" using all_sols_extends[OF sol] by simp
    have rng: "in_range k sol" using all_sols_in_range[OF sol] assms by simp
    have con: "consistent sol" using all_sols_consistent[OF sol] by simp
    have "solve_backtrack (fresh k) 0 = Inr (True, ?s')"
      unfolding b c by (simp add: first_result_def)
    moreover have "collect_solution ?s' = Inr (pairs_of sol)"
      using rng by (intro collect_solution_board_of) simp_all
    moreover have "nqueens_solution k (set (pairs_of sol))"
      using len rng con by (rule placement_solution)
    moreover have "validate_solution ?s' (pairs_of sol)"
      using len con by (intro validate_pairs_of) simp_all
    ultimately show ?thesis by blast
  qed
  have third: "\<exists>s' sol. solve_backtrack (fresh k) 0 = Inr (True, s')
      \<and> collect_solution s' = Inr sol \<and> nqueens_solution k (set sol)
      \<and> validate_solution s' sol"
    if "k \<noteq> 2 \<and> k \<noteq> 3"
  proof -
    from that s e have "all_sols k [] \<noteq> []" by blast
    then obtain sol rest where "all_sols k [] = sol # rest"
      by (cases "all_sols k []") auto
    from found[OF this] show ?thesis by blast
  qed
  have fourth: "\<exists>s'. solve_backtrack (fresh k) 0 = Inr (True, s')
      \<and> collect_solution s' = Inr [(0, 0)]"
    if "k = 1"
  proof -
    from that have "all_sols k [] = [0] # []" by (simp add: placement_1)
    from found[OF this] show ?thesis by (auto simp: pairs_of_def)
  qed
  from fails e s third fourth show ?thesis by blast
qed

theorem first_solution_search_witness:
  "(0::int) < 4 \<and> (0::int) < 2 \<and> (\<exists>Q. nqueens_solution 4 Q)
   \<and> (\<exists>s' sol. solve_backtrack (fresh 4) 0 = Inr (True, s')
        \<and> board s' = [[0, 1, 0, 0], [0, 0, 0, 1], [1, 0, 0, 0], [0, 0, 1, 0]]
        \<and> collect_solution s' = Inr sol
        \<and> nqueens_solution 4 (set sol))
   \<and> \<not> (\<exists>Q. nqueens_solution 2 Q)
   \<and> (\<exists>s'. solve_backtrack (fresh 2) 0 = Inr (False, s'))"
proof -
  have p4: "(0::int) < 4" and p2: "(0::int) < 2" by simp_all
  note t4 = first_solution_search[OF p4] and t2 = first_solution_search[OF p2]
  from t4 have "\<exists>Q. nqueens_solution 4 Q" by simp
  moreover from t4 obtain s' sol where
    "solve_backtrack (fresh 4) 0 = Inr (True, s')" "collect_solution s' = Inr sol"
    "nqueens_solution 4 (set sol)"
    by auto
  then have "\<exists>s' sol. solve_backtrack (fresh 4) 0 = Inr (True, s')
        \<and> board s' = [[0, 1, 0, 0], [0, 0, 0, 1], [1, 0, 0, 0], [0, 0, 1, 0]]
        \<and> collect_solution s' = Inr sol
        \<and> nqueens_solution 4 (set sol)"
    by (auto simp: solve_backtrack_4)
  moreover from t2 have "\<not> (\<exists>Q. nqueens_solution 2 Q)" by simp
  moreover from t2 this have "\<exists>s'. solve_backtrack (fresh 2) 0 = Inr (False, s')" by blast
  ultimately show ?thesis by simp
qed

end
